theory Spec2Isabelle
  imports Complex_Main "HOL-Library.Word" "HOL-Library.Multiset"
begin

unbundle bit_operations_syntax

section \<open>Memory: key and value buffers, allocation\<close>

text \<open>
  The table of \<^verbatim>\<open>hashmap.c\<close> stores \<^verbatim>\<open>void*\<close> pointers to key and value buffers that
  it allocates itself, and it receives pointers to the caller's buffers. These buffers
  live in an explicit store: an address is a natural number, \<open>0\<close> is \<^verbatim>\<open>NULL\<close>, and a
  live object is a cell holding its bytes. \<^verbatim>\<open>size_t\<close> is \<^verbatim>\<open>unsigned long\<close>
  (\<^verbatim>\<open>hashmap.h\<close>), 64 bits wide here.

  Every \<^verbatim>\<open>malloc\<close>/\<^verbatim>\<open>calloc\<close> of the source consults \<open>alloc_ok\<close>, the list of the
  outcomes of the coming allocation requests (\<open>False\<close>: the request returns \<^verbatim>\<open>NULL\<close>);
  once the list is used up every request succeeds. The \<^verbatim>\<open>node_t\<close> structs and the
  bucket array are private to the table: their allocations consult \<open>alloc_ok\<close> in
  source order, but their storage is the HOL value itself (a chain is a list of nodes,
  the \<^verbatim>\<open>next\<close> pointers are the list's order).
\<close>

type_synonym size_t = "64 word"
type_synonym byte = "8 word"
type_synonym addr = nat

record memory =
  cells :: "addr \<rightharpoonup> byte list"
  next_addr :: addr
  alloc_ok :: "bool list"

definition load :: "memory \<Rightarrow> addr \<Rightarrow> byte list" where
  "load m p = (case cells m p of None \<Rightarrow> [] | Some bs \<Rightarrow> bs)"

definition alloc_attempt :: "memory \<Rightarrow> bool \<times> memory" where
  "alloc_attempt m =
     (case alloc_ok m of
        [] \<Rightarrow> (True, m)
      | ok # rest \<Rightarrow> (ok, m\<lparr>alloc_ok := rest\<rparr>))"

definition malloc :: "memory \<Rightarrow> nat \<Rightarrow> addr \<times> memory" where
  "malloc m n =
     (case alloc_attempt m of
        (False, m') \<Rightarrow> (0, m')
      | (True, m') \<Rightarrow>
          (next_addr m',
           m'\<lparr>cells := (cells m')(next_addr m' \<mapsto> replicate n 0),
              next_addr := Suc (next_addr m')\<rparr>))"

definition free :: "memory \<Rightarrow> addr \<Rightarrow> memory" where
  "free m p = m\<lparr>cells := (cells m)(p := None)\<rparr>"

definition memcpy :: "memory \<Rightarrow> addr \<Rightarrow> addr \<Rightarrow> nat \<Rightarrow> memory" where
  "memcpy m dst src n =
     m\<lparr>cells := (cells m)(dst \<mapsto> take n (load m src) @ drop n (load m dst))\<rparr>"

text \<open>
  \<^verbatim>\<open>memcmp\<close> over the first \<open>n\<close> bytes, bytes compared as unsigned; an object that
  ends before \<open>n\<close> bytes is compared up to its end.
\<close>

fun memcmp :: "byte list \<Rightarrow> byte list \<Rightarrow> nat \<Rightarrow> int" where
  "memcmp a b 0 = 0"
| "memcmp [] [] (Suc n) = 0"
| "memcmp [] (y # ys) (Suc n) = - 1"
| "memcmp (x # xs) [] (Suc n) = 1"
| "memcmp (x # xs) (y # ys) (Suc n) =
     (if x = y then memcmp xs ys n else if x < y then - 1 else 1)"

section \<open>The strategy set and the table\<close>

type_synonym hash_fn_t = "byte list \<Rightarrow> size_t \<Rightarrow> size_t"
type_synonym compare_fn_t = "byte list \<Rightarrow> byte list \<Rightarrow> size_t \<Rightarrow> int"
type_synonym destroy_fn_t = "memory \<Rightarrow> addr \<Rightarrow> memory"
type_synonym alloc_copy_fn_t = "memory \<Rightarrow> addr \<Rightarrow> size_t \<Rightarrow> addr \<times> memory"

record node_t =
  node_key :: addr
  node_value :: addr

text \<open>
  The thresholds are \<^verbatim>\<open>float\<close>s; a finite \<^verbatim>\<open>float\<close> is the rational it denotes.
\<close>

record hashmap_t =
  capacity :: size_t
  key_size :: size_t
  value_size :: size_t
  count :: size_t
  load_balance_threshold_min :: rat
  load_balance_threshold_max :: rat
  fn_hash :: hash_fn_t
  fn_compare :: compare_fn_t
  fn_destroy_key :: destroy_fn_t
  fn_destroy_value :: destroy_fn_t
  fn_alloc_copy_key :: alloc_copy_fn_t
  fn_alloc_copy_value :: alloc_copy_fn_t
  table :: "node_t list list"

definition HASHMAP_DEFAULT_CAPACITY :: size_t where
  "HASHMAP_DEFAULT_CAPACITY = 16"

definition HASHMAP_MINIMAL_CAPACITY :: size_t where
  "HASHMAP_MINIMAL_CAPACITY = 2"

definition HASHMAP_DEFAULT_LOAD_BALANCE_THRESHOLD_MAX :: rat where
  "HASHMAP_DEFAULT_LOAD_BALANCE_THRESHOLD_MAX = 3 / 4"

definition HASHMAP_DEFAULT_LOAD_BALANCE_THRESHOLD_MIN :: rat where
  "HASHMAP_DEFAULT_LOAD_BALANCE_THRESHOLD_MIN = 1 / 4"

subsection \<open>Default functions\<close>

definition default_fn_alloc_copy :: alloc_copy_fn_t where
  "default_fn_alloc_copy m element sz =
     (case malloc m (unat sz) of
        (copy, m') \<Rightarrow>
          if copy = 0 then (0, m')
          else (copy, memcpy m' copy element (unat sz)))"

definition default_fn_compare :: compare_fn_t where
  "default_fn_compare a b sz = memcmp a b (unat sz)"

definition default_fn_destroy :: destroy_fn_t where
  "default_fn_destroy = free"

subsection \<open>Hash functions\<close>

text \<open>
  \<^verbatim>\<open>hashmap_fn_hash_djb2\<close> reads \<^verbatim>\<open>char\<close>s up to the first zero byte and never looks
  at \<^verbatim>\<open>size\<close>. Whether \<^verbatim>\<open>char\<close> is signed is the platform's choice, so it is a
  parameter: \<^verbatim>\<open>*str\<close> is converted to \<^verbatim>\<open>size_t\<close> by sign extension when it is, by zero
  extension when not. A buffer with no zero byte is read up to its end.
\<close>

definition char_to_size_t :: "bool \<Rightarrow> byte \<Rightarrow> size_t" where
  "char_to_size_t char_signed c = (if char_signed then scast c else ucast c)"

fun djb2_loop :: "bool \<Rightarrow> size_t \<Rightarrow> byte list \<Rightarrow> size_t" where
  "djb2_loop sg hash [] = hash"
| "djb2_loop sg hash (c # str) =
     (if c = 0 then hash
      else djb2_loop sg ((push_bit 5 hash + hash) + char_to_size_t sg c) str)"

definition hashmap_fn_hash_djb2 :: "bool \<Rightarrow> hash_fn_t" where
  "hashmap_fn_hash_djb2 sg key sz = djb2_loop sg 5381 key"



subsection \<open>String functions\<close>



section \<open>Single-precision load balance\<close>

text \<open>
  \<^verbatim>\<open>(float)hm->count / hm->capacity\<close> converts both operands to \<^verbatim>\<open>float\<close> and divides
  in \<^verbatim>\<open>float\<close>. A finite \<^verbatim>\<open>float\<close> has a 24 bit significand; conversion and division
  round to the nearest one, ties to the even significand. The exponent range of
  \<^verbatim>\<open>float\<close> is not reached by quotients of two non-zero 64 bit integers.
\<close>

fun bit_length :: "nat \<Rightarrow> nat" where
  "bit_length n = (if n = 0 then 0 else Suc (bit_length (n div 2)))"

declare bit_length.simps [simp del]

definition ilog2 :: "rat \<Rightarrow> int" where
  "ilog2 x =
     (if 1 \<le> x then int (bit_length (nat \<lfloor>x\<rfloor>)) - 1
      else - int (bit_length (nat \<lceil>1 / x\<rceil> - 1)))"

definition round_half_even :: "rat \<Rightarrow> int" where
  "round_half_even r =
     (let f = \<lfloor>r\<rfloor>; d = r - of_int f
      in if d < 1 / 2 then f
         else if 1 / 2 < d then f + 1
         else if even f then f else f + 1)"

definition f32_round :: "rat \<Rightarrow> rat" where
  "f32_round x =
     (if x \<le> 0 then 0
      else let q = 2 powi (ilog2 x - 23)
           in of_int (round_half_even (x / q)) * q)"

definition load_balance :: "size_t \<Rightarrow> size_t \<Rightarrow> rat" where
  "load_balance cnt cap =
     f32_round (f32_round (of_nat (unat cnt)) / f32_round (of_nat (unat cap)))"

section \<open>Operations\<close>

definition get_auto_growth_new_capacity :: "hashmap_t \<Rightarrow> size_t" where
  "get_auto_growth_new_capacity hm = capacity hm + drop_bit 1 (capacity hm)"

definition get_auto_shrink_new_capacity :: "hashmap_t \<Rightarrow> size_t" where
  "get_auto_shrink_new_capacity hm = drop_bit 1 (capacity hm)"

subsection \<open>Nodes\<close>

definition node_create ::
  "hashmap_t \<Rightarrow> memory \<Rightarrow> addr \<Rightarrow> addr \<Rightarrow> node_t option \<times> memory" where
  "node_create hm m key val =
     (case alloc_attempt m of
        (False, m1) \<Rightarrow> (None, m1)
      | (True, m1) \<Rightarrow>
          (case fn_alloc_copy_key hm m1 key (key_size hm) of
             (k, m2) \<Rightarrow>
               if k = 0 then (None, m2)
               else
                 (case fn_alloc_copy_value hm m2 val (value_size hm) of
                    (v, m3) \<Rightarrow>
                      if v = 0 then (None, fn_destroy_key hm m3 k)
                      else (Some \<lparr>node_key = k, node_value = v\<rparr>, m3))))"

definition node_destroy :: "hashmap_t \<Rightarrow> memory \<Rightarrow> node_t \<Rightarrow> memory" where
  "node_destroy hm m node =
     fn_destroy_value hm (fn_destroy_key hm m (node_key node)) (node_value node)"

subsection \<open>Resize\<close>

definition bucket_index :: "hashmap_t \<Rightarrow> memory \<Rightarrow> size_t \<Rightarrow> addr \<Rightarrow> nat" where
  "bucket_index hm m cap key =
     unat (fn_hash hm (load m key) (key_size hm) mod cap)"

fun relink ::
  "hashmap_t \<Rightarrow> memory \<Rightarrow> size_t \<Rightarrow> node_t list list \<Rightarrow> node_t list \<Rightarrow> node_t list list"
where
  "relink hm m new_capacity new_table [] = new_table"
| "relink hm m new_capacity new_table (current # next) =
     (let index = bucket_index hm m new_capacity (node_key current)
      in relink hm m new_capacity
           (new_table[index := current # new_table ! index]) next)"

definition resize :: "hashmap_t \<Rightarrow> memory \<Rightarrow> size_t \<Rightarrow> hashmap_t \<times> memory" where
  "resize hm m new_capacity0 =
     (let new_capacity =
            (if new_capacity0 < HASHMAP_MINIMAL_CAPACITY then HASHMAP_MINIMAL_CAPACITY
             else new_capacity0)
      in case alloc_attempt m of
           (False, m1) \<Rightarrow> (hm, m1)
         | (True, m1) \<Rightarrow>
             (hm\<lparr>table :=
                   foldl (relink hm m1 new_capacity)
                     (replicate (unat new_capacity) [])
                     (map ((!) (table hm)) [0..<unat (capacity hm)]),
                 capacity := new_capacity\<rparr>,
              m1))"

definition auto_grow :: "hashmap_t \<Rightarrow> memory \<Rightarrow> hashmap_t \<times> memory" where
  "auto_grow hm m =
     (if load_balance (count hm) (capacity hm) > load_balance_threshold_max hm
      then resize hm m (get_auto_growth_new_capacity hm)
      else (hm, m))"

definition auto_shrink :: "hashmap_t \<Rightarrow> memory \<Rightarrow> hashmap_t \<times> memory" where
  "auto_shrink hm m =
     (if load_balance (count hm) (capacity hm) < load_balance_threshold_min hm
      then resize hm m (get_auto_shrink_new_capacity hm)
      else (hm, m))"

subsection \<open>create, get, add, remove\<close>

datatype abort = Assertion_failed

definition hashmap_create ::
  "size_t \<Rightarrow> hash_fn_t option \<Rightarrow> size_t \<Rightarrow> size_t \<Rightarrow> bool \<Rightarrow> memory
     \<Rightarrow> abort + (hashmap_t option \<times> memory)" where
  "hashmap_create initial_capacity0 hash_fn0 ksize vsize char_signed m =
     (if \<not> (ksize > 0 \<and> vsize > 0) then Inl Assertion_failed
      else
        let initial_capacity1 =
              (if initial_capacity0 = 0 then HASHMAP_DEFAULT_CAPACITY else initial_capacity0);
            initial_capacity =
              (if initial_capacity1 < HASHMAP_MINIMAL_CAPACITY then HASHMAP_MINIMAL_CAPACITY
               else initial_capacity1);
            hash_fn =
              (case hash_fn0 of None \<Rightarrow> hashmap_fn_hash_djb2 char_signed | Some h \<Rightarrow> h)
        in case alloc_attempt m of
             (False, m1) \<Rightarrow> Inr (None, m1)
           | (True, m1) \<Rightarrow>
               (case alloc_attempt m1 of
                  (False, m2) \<Rightarrow> Inr (None, m2)
                | (True, m2) \<Rightarrow>
                    Inr (Some \<lparr>capacity = initial_capacity,
                               key_size = ksize,
                               value_size = vsize,
                               count = 0,
                               load_balance_threshold_min =
                                 HASHMAP_DEFAULT_LOAD_BALANCE_THRESHOLD_MIN,
                               load_balance_threshold_max =
                                 HASHMAP_DEFAULT_LOAD_BALANCE_THRESHOLD_MAX,
                               fn_hash = hash_fn,
                               fn_compare = default_fn_compare,
                               fn_destroy_key = default_fn_destroy,
                               fn_destroy_value = default_fn_destroy,
                               fn_alloc_copy_key = default_fn_alloc_copy,
                               fn_alloc_copy_value = default_fn_alloc_copy,
                               table = replicate (unat initial_capacity) []\<rparr>,
                         m2)))"

fun get_loop :: "hashmap_t \<Rightarrow> memory \<Rightarrow> addr \<Rightarrow> node_t list \<Rightarrow> addr" where
  "get_loop hm m key [] = 0"
| "get_loop hm m key (current # next) =
     (if fn_compare hm (load m key) (load m (node_key current)) (key_size hm) = 0
      then node_value current
      else get_loop hm m key next)"

definition hashmap_get :: "hashmap_t \<Rightarrow> memory \<Rightarrow> addr \<Rightarrow> addr" where
  "hashmap_get hm m key =
     (let index = bucket_index hm m (capacity hm) key
      in get_loop hm m key (table hm ! index))"

definition hashmap_add ::
  "hashmap_t \<Rightarrow> memory \<Rightarrow> addr \<Rightarrow> addr \<Rightarrow> addr \<times> hashmap_t \<times> memory" where
  "hashmap_add hm m key val =
     (let existing_value = hashmap_get hm m key
      in if existing_value \<noteq> 0 then (existing_value, hm, m)
         else
           (case auto_grow (hm\<lparr>count := count hm + 1\<rparr>) m of
              (hm1, m1) \<Rightarrow>
                (let index = bucket_index hm1 m1 (capacity hm1) key
                 in (case node_create hm1 m1 key val of
                       (None, m2) \<Rightarrow> (0, hm1\<lparr>count := count hm1 - 1\<rparr>, m2)
                     | (Some node, m2) \<Rightarrow>
                         (node_value node,
                          hm1\<lparr>table := (table hm1)[index := node # table hm1 ! index]\<rparr>,
                          m2)))))"

text \<open>
  The walk of \<^verbatim>\<open>hashmap_remove\<close> with its \<^verbatim>\<open>prev\<close> pointer: the first node whose key
  matches is unlinked; the result is that node and the chain without it.
\<close>

fun remove_loop ::
  "hashmap_t \<Rightarrow> memory \<Rightarrow> addr \<Rightarrow> node_t list \<Rightarrow> (node_t \<times> node_t list) option" where
  "remove_loop hm m key [] = None"
| "remove_loop hm m key (current # next) =
     (if fn_compare hm (load m key) (load m (node_key current)) (key_size hm) = 0
      then Some (current, next)
      else (case remove_loop hm m key next of
              None \<Rightarrow> None
            | Some (found, next') \<Rightarrow> Some (found, current # next')))"

definition hashmap_remove ::
  "hashmap_t \<Rightarrow> memory \<Rightarrow> addr \<Rightarrow> bool \<times> hashmap_t \<times> memory" where
  "hashmap_remove hm m key =
     (let index = bucket_index hm m (capacity hm) key
      in case remove_loop hm m key (table hm ! index) of
           None \<Rightarrow> (False, hm, m)
         | Some (current, chain') \<Rightarrow>
             (let hm1 = hm\<lparr>table := (table hm)[index := chain']\<rparr>;
                  m1 = node_destroy hm1 m current
              in case auto_shrink (hm1\<lparr>count := count hm1 - 1\<rparr>) m1 of
                   (hm2, m2) \<Rightarrow> (True, hm2, m2)))"

definition hashmap_count :: "hashmap_t \<Rightarrow> size_t" where
  "hashmap_count hm = count hm"

definition hashmap_capacity :: "hashmap_t \<Rightarrow> size_t" where
  "hashmap_capacity hm = capacity hm"


section \<open>Well-formed tables\<close>

text \<open>
  The live entries of a table, in bucket order; equality of two keys under the table's
  equality strategy; a node whose stored key equals the key behind a pointer.
\<close>

definition nodes :: "hashmap_t \<Rightarrow> node_t list" where
  "nodes hm = concat (table hm)"

definition key_eq :: "hashmap_t \<Rightarrow> byte list \<Rightarrow> byte list \<Rightarrow> bool" where
  "key_eq hm a b \<longleftrightarrow> fn_compare hm a b (key_size hm) = 0"

definition matches :: "hashmap_t \<Rightarrow> memory \<Rightarrow> addr \<Rightarrow> node_t \<Rightarrow> bool" where
  "matches hm m key n \<longleftrightarrow> key_eq hm (load m key) (load m (node_key n))"

text \<open>
  What the properties below ask of the strategies, for the set \<open>D\<close> of the keys a
  table is used with. The hash and equality strategies are coherent on \<open>D\<close>: the
  equality strategy is symmetric and transitive, the hash strategy gives equal keys
  equal hashes, and the copy of a key (its first \<open>key_size\<close> bytes) is a key of
  \<open>D\<close> equal to it. The strategies stay inside the key buffers: a key of \<open>D\<close> has
  at least \<open>key_size\<close> bytes, and what follows it in memory changes neither its hash
  nor a comparison; \<open>key_size\<close> is not zero (\<^verbatim>\<open>hashmap_create\<close> asserts it). The
  keys a table stores are keys of \<open>D\<close>.

  The copy and destroy strategies are the ones \<^verbatim>\<open>hashmap_create\<close> installs
  (\<^verbatim>\<open>malloc\<close> and \<^verbatim>\<open>memcpy\<close>, \<^verbatim>\<open>free\<close>).
\<close>

definition keys_coherent :: "hashmap_t \<Rightarrow> byte list set \<Rightarrow> bool" where
  "keys_coherent hm D \<longleftrightarrow>
     (\<forall>a \<in> D. \<forall>b \<in> D. key_eq hm a b \<longrightarrow> key_eq hm b a) \<and>
     (\<forall>a \<in> D. \<forall>b \<in> D. \<forall>c \<in> D. key_eq hm a b \<longrightarrow> key_eq hm b c \<longrightarrow> key_eq hm a c) \<and>
     (\<forall>a \<in> D. \<forall>b \<in> D. key_eq hm a b \<longrightarrow>
        fn_hash hm a (key_size hm) = fn_hash hm b (key_size hm)) \<and>
     (\<forall>a \<in> D. take (unat (key_size hm)) a \<in> D \<and>
        key_eq hm a (take (unat (key_size hm)) a)) \<and>
     (\<forall>a \<in> D. unat (key_size hm) \<le> length a) \<and>
     (\<forall>a \<in> D. \<forall>e. fn_hash hm (a @ e) (key_size hm) = fn_hash hm a (key_size hm)) \<and>
     (\<forall>a \<in> D. \<forall>b \<in> D. \<forall>e1 e2.
        fn_compare hm (a @ e1) (b @ e2) (key_size hm) = fn_compare hm a b (key_size hm)) \<and>
     0 < key_size hm"

definition default_ownership :: "hashmap_t \<Rightarrow> bool" where
  "default_ownership hm \<longleftrightarrow>
     fn_alloc_copy_key hm = default_fn_alloc_copy \<and>
     fn_alloc_copy_value hm = default_fn_alloc_copy \<and>
     fn_destroy_key hm = default_fn_destroy \<and>
     fn_destroy_value hm = default_fn_destroy"

definition strategies_ok :: "hashmap_t \<Rightarrow> byte list set \<Rightarrow> bool" where
  "strategies_ok hm D \<longleftrightarrow> keys_coherent hm D \<and> default_ownership hm"

definition stored_in :: "hashmap_t \<Rightarrow> memory \<Rightarrow> byte list set \<Rightarrow> bool" where
  "stored_in hm m D \<longleftrightarrow> (\<forall>n \<in> set (nodes hm). load m (node_key n) \<in> D)"

text \<open>
  What a call needs to be one the source defines. The bucket array is as
  \<^verbatim>\<open>hashmap_create\<close> and \<^verbatim>\<open>resize\<close> allocate it: \<open>capacity\<close> chains, and at least
  the minimal capacity. The hash strategy reads the stored keys inside their buffers:
  what follows a stored key in memory does not change its hash. For a call with a key,
  the hash strategy reads that key, and the equality strategy reads it and the stored
  keys, inside their buffers.
\<close>

definition array_ok :: "hashmap_t \<Rightarrow> bool" where
  "array_ok hm \<longleftrightarrow>
     length (table hm) = unat (capacity hm) \<and> HASHMAP_MINIMAL_CAPACITY \<le> capacity hm"

definition hash_in_bounds :: "hashmap_t \<Rightarrow> memory \<Rightarrow> bool" where
  "hash_in_bounds hm m \<longleftrightarrow>
     (\<forall>n \<in> set (nodes hm). \<forall>e.
        fn_hash hm (load m (node_key n) @ e) (key_size hm) =
        fn_hash hm (load m (node_key n)) (key_size hm))"

definition reads_inside :: "hashmap_t \<Rightarrow> memory \<Rightarrow> addr \<Rightarrow> bool" where
  "reads_inside hm m key \<longleftrightarrow>
     hash_in_bounds hm m \<and>
     (\<forall>e. fn_hash hm (load m key @ e) (key_size hm) =
          fn_hash hm (load m key) (key_size hm)) \<and>
     (\<forall>n \<in> set (nodes hm). \<forall>e1 e2.
        fn_compare hm (load m key @ e1) (load m (node_key n) @ e2) (key_size hm) =
        fn_compare hm (load m key) (load m (node_key n)) (key_size hm))"

text \<open>
  The state of a table built by \<^verbatim>\<open>hashmap_create\<close>, \<^verbatim>\<open>hashmap_add\<close> and
  \<^verbatim>\<open>hashmap_remove\<close>: the bucket array has \<open>capacity\<close> chains and every node
  lies in the chain of its key's hash; the key and value buffers of the nodes are live,
  pairwise distinct cells below the allocation pointer; no two stored keys are equal.
\<close>

definition buckets_ok :: "hashmap_t \<Rightarrow> memory \<Rightarrow> bool" where
  "buckets_ok hm m \<longleftrightarrow>
     length (table hm) = unat (capacity hm) \<and>
     HASHMAP_MINIMAL_CAPACITY \<le> capacity hm \<and>
     (\<forall>i < length (table hm). \<forall>n \<in> set (table hm ! i).
        bucket_index hm m (capacity hm) (node_key n) = i)"

definition separated :: "hashmap_t \<Rightarrow> memory \<Rightarrow> bool" where
  "separated hm m \<longleftrightarrow>
     distinct (map node_key (nodes hm) @ map node_value (nodes hm)) \<and>
     (\<forall>n \<in> set (nodes hm). node_key n \<in> dom (cells m) \<and> node_value n \<in> dom (cells m)) \<and>
     0 < next_addr m \<and>
     (\<forall>a \<in> dom (cells m). 0 < a \<and> a < next_addr m)"

definition keys_unique :: "hashmap_t \<Rightarrow> memory \<Rightarrow> bool" where
  "keys_unique hm m \<longleftrightarrow>
     (\<forall>n1 \<in> set (nodes hm). \<forall>n2 \<in> set (nodes hm).
        key_eq hm (load m (node_key n1)) (load m (node_key n2)) \<longrightarrow> n1 = n2)"

definition hm_inv :: "hashmap_t \<Rightarrow> memory \<Rightarrow> bool" where
  "hm_inv hm m \<longleftrightarrow> buckets_ok hm m \<and> separated hm m \<and> keys_unique hm m"

text \<open>
  A bucket array whose every node lies in the chain of its key's hash, for a capacity;
  the clamp that opens \<^verbatim>\<open>resize\<close>.
\<close>

definition placed :: "hashmap_t \<Rightarrow> memory \<Rightarrow> size_t \<Rightarrow> node_t list list \<Rightarrow> bool" where
  "placed hm m cap t \<longleftrightarrow>
     (\<forall>i < length t. \<forall>n \<in> set (t ! i). bucket_index hm m cap (node_key n) = i)"

definition clamp_capacity :: "size_t \<Rightarrow> size_t" where
  "clamp_capacity c =
     (if c < HASHMAP_MINIMAL_CAPACITY then HASHMAP_MINIMAL_CAPACITY else c)"

text \<open>
  Two states of one table: only the bucket array, the capacity and the count differ.
\<close>

definition same_config :: "hashmap_t \<Rightarrow> hashmap_t \<Rightarrow> bool" where
  "same_config hm hm' \<longleftrightarrow>
     hm' = hm\<lparr>table := table hm', capacity := capacity hm', count := count hm'\<rparr>"

text \<open>
  The addresses of the buffers a table owns.
\<close>

definition owned :: "hashmap_t \<Rightarrow> addr set" where
  "owned hm = node_key ` set (nodes hm) \<union> node_value ` set (nodes hm)"

section \<open>Reference functions and sample states\<close>

text \<open>
  The fold the specification describes for djb2, over a given run of bytes: start from
  5381 and take \<open>hash * 33 + byte\<close> for each byte, in \<^verbatim>\<open>size_t\<close> arithmetic.
\<close>

definition djb2_fold :: "bool \<Rightarrow> byte list \<Rightarrow> size_t" where
  "djb2_fold sg bs = foldl (\<lambda>hash c. hash * 33 + char_to_size_t sg c) 5381 bs"

text \<open>
  The table \<^verbatim>\<open>hashmap_create\<close> returns, and a memory with no object yet in which
  every allocation succeeds.
\<close>

definition fresh_table :: "size_t \<Rightarrow> hash_fn_t \<Rightarrow> size_t \<Rightarrow> size_t \<Rightarrow> hashmap_t" where
  "fresh_table cap h ksize vsize =
     \<lparr>capacity = cap, key_size = ksize, value_size = vsize, count = 0,
      load_balance_threshold_min = HASHMAP_DEFAULT_LOAD_BALANCE_THRESHOLD_MIN,
      load_balance_threshold_max = HASHMAP_DEFAULT_LOAD_BALANCE_THRESHOLD_MAX,
      fn_hash = h,
      fn_compare = default_fn_compare,
      fn_destroy_key = default_fn_destroy,
      fn_destroy_value = default_fn_destroy,
      fn_alloc_copy_key = default_fn_alloc_copy,
      fn_alloc_copy_value = default_fn_alloc_copy,
      table = replicate (unat cap) []\<rparr>"

definition mem0 :: memory where
  "mem0 = \<lparr>cells = Map.empty, next_addr = 1, alloc_ok = []\<rparr>"

text \<open>
  The keys the default strategies (djb2, \<^verbatim>\<open>memcmp\<close>) agree on: buffers of at least
  \<open>key_size\<close> bytes with a zero byte among the first \<open>key_size\<close>.
\<close>

definition terminated_keys :: "size_t \<Rightarrow> byte list set" where
  "terminated_keys ksize =
     {bs. unat ksize \<le> length bs \<and> 0 \<in> set (take (unat ksize) bs)}"

text \<open>
  A caller's memory: three two-byte text keys \<^verbatim>\<open>"a"\<close>, \<^verbatim>\<open>"b"\<close>, \<^verbatim>\<open>"c"\<close> at the
  addresses 1, 2, 3, three one-byte values at 4, 5, 6, and at 7 a second buffer that
  starts with the text \<^verbatim>\<open>"a"\<close>; and the table created with capacity 2 for such keys
  and values, with the default strategies and thresholds.
\<close>

definition sample_mem :: memory where
  "sample_mem =
     \<lparr>cells = [1 \<mapsto> [97, 0], 2 \<mapsto> [98, 0], 3 \<mapsto> [99, 0],
               4 \<mapsto> [10], 5 \<mapsto> [20], 6 \<mapsto> [30], 7 \<mapsto> [97, 0, 33]],
      next_addr = 8, alloc_ok = []\<rparr>"

definition sample_table :: hashmap_t where
  "sample_table = fresh_table 2 (hashmap_fn_hash_djb2 False) 2 1"

text \<open>
  The state after \<^verbatim>\<open>hashmap_add(hm, "a", &v1)\<close> on the sample table: the result
  pointer, the table and the memory.
\<close>

definition sample_add1 :: "addr \<times> hashmap_t \<times> memory" where
  "sample_add1 = hashmap_add sample_table sample_mem 1 4"


text \<open>
  The table holding \<^verbatim>\<open>"a"\<close> in a memory where the next allocation succeeds and the
  one after it fails, and \<^verbatim>\<open>hashmap_add(hm, "b", &v2)\<close> there: the bucket array of
  the resize is allocated, the node is not.
\<close>

definition sample_mem_fail :: memory where
  "sample_mem_fail = (snd (snd sample_add1))\<lparr>alloc_ok := [True, False]\<rparr>"

definition sample_add_fail :: "addr \<times> hashmap_t \<times> memory" where
  "sample_add_fail = hashmap_add (fst (snd sample_add1)) sample_mem_fail 2 5"

text \<open>
  The table holding \<^verbatim>\<open>"a"\<close> in a memory where the next allocation fails and the three
  after it succeed: the bucket array of a resize cannot be allocated, a node can.
\<close>

definition sample_mem_noresize :: memory where
  "sample_mem_noresize = (snd (snd sample_add1))\<lparr>alloc_ok := [False, True, True, True]\<rparr>"

text \<open>
  The scenario of the specification, run on the sample table and memory: \<^verbatim>\<open>"a"\<close>,
  \<^verbatim>\<open>"b"\<close> and \<^verbatim>\<open>"c"\<close> are added, then \<^verbatim>\<open>"a"\<close> and \<^verbatim>\<open>"b"\<close> are removed. What it
  observes: the capacity after each of the five calls; the pointers the adds returned;
  what get returns for the three keys after the third add, and the bytes stored there;
  the results of the removes; the count at the end, what get returns for the three keys
  then, and the bytes of the remaining value.
\<close>

definition scenario ::
  "size_t list \<times> addr list \<times> addr list \<times> byte list list \<times> bool list \<times> size_t \<times>
   addr list \<times> byte list" where
  "scenario =
     (case hashmap_add sample_table sample_mem 1 4 of (p1, hm1, m1) \<Rightarrow>
      (case hashmap_add hm1 m1 2 5 of (p2, hm2, m2) \<Rightarrow>
       (case hashmap_add hm2 m2 3 6 of (p3, hm3, m3) \<Rightarrow>
        (case hashmap_remove hm3 m3 1 of (b1, hm4, m4) \<Rightarrow>
         (case hashmap_remove hm4 m4 2 of (b2, hm5, m5) \<Rightarrow>
            (map hashmap_capacity [hm1, hm2, hm3, hm4, hm5],
             [p1, p2, p3],
             map (hashmap_get hm3 m3) [1, 2, 3],
             map (load m3) [p1, p2, p3],
             [b1, b2],
             hashmap_count hm5,
             map (hashmap_get hm5 m5) [1, 2, 3],
             load m5 p3))))))"

text \<open>
  One add to a table created with the default capacity.
\<close>

definition default_add1 :: "addr \<times> hashmap_t \<times> memory" where
  "default_add1 =
     hashmap_add (fresh_table 16 (hashmap_fn_hash_djb2 False) 2 1) sample_mem 1 4"







text \<open>
  The states of a table in use, for keys of \<open>D\<close>: \<^verbatim>\<open>hashmap_create\<close> returns the
  table, in a memory whose live objects lie below the allocation pointer; then
  \<^verbatim>\<open>hashmap_add\<close> and \<^verbatim>\<open>hashmap_remove\<close> are called with keys of \<open>D\<close> held in live
  buffers (for add, with a live value buffer of at least \<open>value_size\<close> bytes), and
  the caller writes to live buffers that the table does not own.
\<close>

inductive reachable :: "byte list set \<Rightarrow> hashmap_t \<Rightarrow> memory \<Rightarrow> bool" for D where
  reachable_create:
    "hashmap_create initial_capacity hash_fn ksize vsize sg m = Inr (Some hm, m') \<Longrightarrow>
     0 < next_addr m \<Longrightarrow> \<forall>a \<in> dom (cells m). 0 < a \<and> a < next_addr m \<Longrightarrow>
     keys_coherent hm D \<Longrightarrow> reachable D hm m'"
| reachable_add:
    "reachable D hm m \<Longrightarrow> load m key \<in> D \<Longrightarrow>
     key \<in> dom (cells m) \<Longrightarrow> val \<in> dom (cells m) \<Longrightarrow>
     unat (value_size hm) \<le> length (load m val) \<Longrightarrow>
     hashmap_add hm m key val = (p, hm', m') \<Longrightarrow> reachable D hm' m'"
| reachable_remove:
    "reachable D hm m \<Longrightarrow> load m key \<in> D \<Longrightarrow>
     hashmap_remove hm m key = (b, hm', m') \<Longrightarrow> reachable D hm' m'"
| reachable_write:
    "reachable D hm m \<Longrightarrow> a \<in> dom (cells m) \<Longrightarrow> a \<notin> owned hm \<Longrightarrow>
     reachable D hm (m\<lparr>cells := (cells m)(a \<mapsto> bs)\<rparr>)"

section \<open>Lookup and rehashing\<close>

lemma key_eq_sym:
  "keys_coherent hm D \<Longrightarrow> a \<in> D \<Longrightarrow> b \<in> D \<Longrightarrow> key_eq hm a b \<Longrightarrow> key_eq hm b a"
proof -
  assume "keys_coherent hm D"
  then have "\<forall>a \<in> D. \<forall>b \<in> D. key_eq hm a b \<longrightarrow> key_eq hm b a"
    unfolding keys_coherent_def by (elim conjE)
  then show "a \<in> D \<Longrightarrow> b \<in> D \<Longrightarrow> key_eq hm a b \<Longrightarrow> key_eq hm b a" by blast
qed

lemma key_eq_trans:
  "keys_coherent hm D \<Longrightarrow> a \<in> D \<Longrightarrow> b \<in> D \<Longrightarrow> c \<in> D \<Longrightarrow>
   key_eq hm a b \<Longrightarrow> key_eq hm b c \<Longrightarrow> key_eq hm a c"
proof -
  assume "keys_coherent hm D"
  then have "\<forall>a \<in> D. \<forall>b \<in> D. \<forall>c \<in> D.
      key_eq hm a b \<longrightarrow> key_eq hm b c \<longrightarrow> key_eq hm a c"
    unfolding keys_coherent_def by (elim conjE)
  then show "a \<in> D \<Longrightarrow> b \<in> D \<Longrightarrow> c \<in> D \<Longrightarrow>
   key_eq hm a b \<Longrightarrow> key_eq hm b c \<Longrightarrow> key_eq hm a c" by blast
qed

lemma key_eq_hash:
  "keys_coherent hm D \<Longrightarrow> a \<in> D \<Longrightarrow> b \<in> D \<Longrightarrow> key_eq hm a b \<Longrightarrow>
     fn_hash hm a (key_size hm) = fn_hash hm b (key_size hm)"
proof -
  assume "keys_coherent hm D"
  then have "\<forall>a \<in> D. \<forall>b \<in> D. key_eq hm a b \<longrightarrow>
      fn_hash hm a (key_size hm) = fn_hash hm b (key_size hm)"
    unfolding keys_coherent_def by (elim conjE)
  then show "a \<in> D \<Longrightarrow> b \<in> D \<Longrightarrow> key_eq hm a b \<Longrightarrow>
     fn_hash hm a (key_size hm) = fn_hash hm b (key_size hm)" by blast
qed

lemma key_eq_copy:
  assumes "keys_coherent hm D" "a \<in> D"
  shows "take (unat (key_size hm)) a \<in> D" and "key_eq hm a (take (unat (key_size hm)) a)"
proof -
  from assms(1) have "\<forall>a \<in> D. take (unat (key_size hm)) a \<in> D \<and>
        key_eq hm a (take (unat (key_size hm)) a)"
    unfolding keys_coherent_def by (elim conjE)
  with assms(2)
  show "take (unat (key_size hm)) a \<in> D" and "key_eq hm a (take (unat (key_size hm)) a)"
    by blast+
qed

lemma strategies_ok_ownership:
  assumes "strategies_ok hm D"
  shows "default_ownership hm"
  using assms unfolding strategies_ok_def by (elim conjE)

lemma strategies_ok_coherent:
  assumes "strategies_ok hm D"
  shows "keys_coherent hm D"
  using assms unfolding strategies_ok_def by (elim conjE)

lemma hash_in_bounds_coherent:
  assumes "keys_coherent hm D" "stored_in hm m D"
  shows "hash_in_bounds hm m"
proof -
  from assms(1) have "\<forall>a \<in> D. \<forall>e.
      fn_hash hm (a @ e) (key_size hm) = fn_hash hm a (key_size hm)"
    unfolding keys_coherent_def by (elim conjE)
  with assms(2) show ?thesis unfolding hash_in_bounds_def stored_in_def by blast
qed

lemma reads_inside_coherent:
  assumes kc: "keys_coherent hm D" and sd: "stored_in hm m D" and kd: "load m key \<in> D"
  shows "reads_inside hm m key"
proof -
  from kc have h: "\<forall>a \<in> D. \<forall>e.
      fn_hash hm (a @ e) (key_size hm) = fn_hash hm a (key_size hm)"
    unfolding keys_coherent_def by (elim conjE)
  from kc have c: "\<forall>a \<in> D. \<forall>b \<in> D. \<forall>e1 e2.
      fn_compare hm (a @ e1) (b @ e2) (key_size hm) = fn_compare hm a b (key_size hm)"
    unfolding keys_coherent_def by (elim conjE)
  have "hash_in_bounds hm m" using kc sd by (rule hash_in_bounds_coherent)
  moreover have "\<forall>e. fn_hash hm (load m key @ e) (key_size hm) =
      fn_hash hm (load m key) (key_size hm)" using h kd by blast
  moreover have "\<forall>n \<in> set (nodes hm). \<forall>e1 e2.
      fn_compare hm (load m key @ e1) (load m (node_key n) @ e2) (key_size hm) =
      fn_compare hm (load m key) (load m (node_key n)) (key_size hm)"
    using c kd sd unfolding stored_in_def by blast
  ultimately show ?thesis unfolding reads_inside_def by blast
qed

lemma stored_inD: "stored_in hm m D \<Longrightarrow> n \<in> set (nodes hm) \<Longrightarrow> load m (node_key n) \<in> D"
  unfolding stored_in_def by blast

lemma stored_in_cong:
  assumes "stored_in hm m D" "set (nodes hm') \<subseteq> set (nodes hm)"
      and "\<forall>n \<in> set (nodes hm'). load m' (node_key n) = load m (node_key n)"
  shows "stored_in hm' m' D"
  unfolding stored_in_def
proof
  fix n assume n: "n \<in> set (nodes hm')"
  with assms(2) have "n \<in> set (nodes hm)" by blast
  with assms(1) have "load m (node_key n) \<in> D" by (rule stored_inD)
  with assms(3) n show "load m' (node_key n) \<in> D" by simp
qed

lemma stored_in_same_nodes:
  assumes "stored_in hm m D" "mset (nodes hm') = mset (nodes hm)" "cells m' = cells m"
  shows "stored_in hm' m' D"
proof -
  have "set (nodes hm') = set (nodes hm)" using assms(2) by (rule mset_eq_setD)
  moreover have "\<And>p. load m' p = load m p" using assms(3) by (simp add: load_def)
  ultimately show ?thesis using assms(1) unfolding stored_in_def by simp
qed

lemma get_loop_found:
  "get_loop hm m key chain \<noteq> 0 \<Longrightarrow>
     \<exists>n \<in> set chain. matches hm m key n \<and> get_loop hm m key chain = node_value n"
  by (induction chain) (auto simp: matches_def key_eq_def split: if_splits)

lemma get_loop_none:
  "\<forall>n \<in> set chain. \<not> matches hm m key n \<Longrightarrow> get_loop hm m key chain = 0"
  by (induction chain) (auto simp: matches_def key_eq_def)

lemma get_loop_unique:
  "n \<in> set chain \<Longrightarrow> matches hm m key n \<Longrightarrow>
   \<forall>n' \<in> set chain. matches hm m key n' \<longrightarrow> n' = n \<Longrightarrow>
   get_loop hm m key chain = node_value n"
proof (induction chain)
  case Nil
  then show ?case by simp
next
  case (Cons c chain)
  show ?case
  proof (cases "matches hm m key c")
    case True
    with Cons.prems(3) have "c = n" by simp
    with True show ?thesis by (simp add: matches_def key_eq_def)
  next
    case False
    with Cons.prems(1,2) have "n \<in> set chain" by auto
    moreover have "\<forall>n' \<in> set chain. matches hm m key n' \<longrightarrow> n' = n"
      using Cons.prems(3) by simp
    ultimately have "get_loop hm m key chain = node_value n"
      using Cons.IH Cons.prems(2) by blast
    with False show ?thesis by (simp add: matches_def key_eq_def)
  qed
qed

lemma bucket_index_less:
  "cap \<noteq> 0 \<Longrightarrow> bucket_index hm m cap key < unat cap"
  unfolding bucket_index_def
  by (metis unat_mod_distrib mod_less_divisor unat_gt_0)

lemma array_ok_inv: "hm_inv hm m \<Longrightarrow> array_ok hm"
  unfolding hm_inv_def buckets_ok_def array_ok_def by blast

lemma buckets_ok_capacity_nonzero: "buckets_ok hm m \<Longrightarrow> capacity hm \<noteq> 0"
  by (auto simp: buckets_ok_def HASHMAP_MINIMAL_CAPACITY_def)

lemma in_nodes_iff:
  "n \<in> set (nodes hm) \<longleftrightarrow> (\<exists>i < length (table hm). n \<in> set (table hm ! i))"
proof
  assume "n \<in> set (nodes hm)"
  then obtain c where c: "c \<in> set (table hm)" "n \<in> set c"
    unfolding nodes_def by auto
  from c(1) obtain i where "i < length (table hm)" "table hm ! i = c"
    unfolding in_set_conv_nth by blast
  with c(2) show "\<exists>i < length (table hm). n \<in> set (table hm ! i)" by blast
next
  assume "\<exists>i < length (table hm). n \<in> set (table hm ! i)"
  then obtain i where "i < length (table hm)" "n \<in> set (table hm ! i)" by blast
  then show "n \<in> set (nodes hm)"
    unfolding nodes_def using nth_mem by fastforce
qed

lemma matches_same_bucket:
  assumes "keys_coherent hm D" "matches hm m key n"
      and "load m key \<in> D" "load m (node_key n) \<in> D"
  shows "bucket_index hm m cap (node_key n) = bucket_index hm m cap key"
proof -
  from assms(2) have "key_eq hm (load m key) (load m (node_key n))"
    unfolding matches_def .
  with assms(1,3,4) have "fn_hash hm (load m key) (key_size hm) =
                 fn_hash hm (load m (node_key n)) (key_size hm)" by (rule key_eq_hash)
  then show ?thesis unfolding bucket_index_def by simp
qed

lemma matches_unique:
  assumes "keys_coherent hm D" "keys_unique hm m" "stored_in hm m D" "load m key \<in> D"
      and "n \<in> set (nodes hm)" "n' \<in> set (nodes hm)"
      and "matches hm m key n" "matches hm m key n'"
  shows "n' = n"
proof -
  have d: "load m (node_key n) \<in> D" "load m (node_key n') \<in> D"
    using assms(3,5,6) by (blast intro: stored_inD)+
  have "key_eq hm (load m (node_key n')) (load m key)"
    using assms(1) assms(4) d(2) assms(8) [unfolded matches_def] by (rule key_eq_sym)
  moreover have "key_eq hm (load m key) (load m (node_key n))"
    using assms(7) unfolding matches_def .
  ultimately have "key_eq hm (load m (node_key n')) (load m (node_key n))"
    using key_eq_trans [OF assms(1) d(2) assms(4) d(1)] by blast
  then show ?thesis
    using assms(2,5,6) unfolding keys_unique_def by blast
qed

lemma chain_subset_nodes:
  "i < length (table hm) \<Longrightarrow> n \<in> set (table hm ! i) \<Longrightarrow> n \<in> set (nodes hm)"
  using in_nodes_iff by blast

lemma index_in_range:
  assumes "buckets_ok hm m"
  shows "bucket_index hm m (capacity hm) key < length (table hm)"
proof -
  have "capacity hm \<noteq> 0" using assms by (rule buckets_ok_capacity_nonzero)
  then have "bucket_index hm m (capacity hm) key < unat (capacity hm)"
    by (rule bucket_index_less)
  moreover have "length (table hm) = unat (capacity hm)"
    using assms unfolding buckets_ok_def by blast
  ultimately show ?thesis by simp
qed

lemma node_bucket:
  assumes "buckets_ok hm m" "n \<in> set (nodes hm)"
  shows "bucket_index hm m (capacity hm) (node_key n) < length (table hm) \<and>
         n \<in> set (table hm ! bucket_index hm m (capacity hm) (node_key n))"
proof -
  from assms(2) obtain i where i: "i < length (table hm)" "n \<in> set (table hm ! i)"
    using in_nodes_iff by blast
  with assms(1) have "bucket_index hm m (capacity hm) (node_key n) = i"
    unfolding buckets_ok_def by blast
  with i show ?thesis by simp
qed

lemma hashmap_get_present:
  assumes ok: "keys_coherent hm D" and inv: "hm_inv hm m"
      and st: "stored_in hm m D" and kd: "load m key \<in> D"
      and n: "n \<in> set (nodes hm)" and mt: "matches hm m key n"
  shows "hashmap_get hm m key = node_value n"
proof -
  let ?i = "bucket_index hm m (capacity hm) key"
  from inv have b: "buckets_ok hm m" and u: "keys_unique hm m"
    unfolding hm_inv_def by blast+
  have nd: "load m (node_key n) \<in> D" using st n by (rule stored_inD)
  have eq: "bucket_index hm m (capacity hm) (node_key n) = ?i"
    using ok mt kd nd by (rule matches_same_bucket)
  have in_chain: "n \<in> set (table hm ! ?i)" and lt: "?i < length (table hm)"
    using node_bucket [OF b n] unfolding eq by blast+
  have "\<forall>n' \<in> set (table hm ! ?i). matches hm m key n' \<longrightarrow> n' = n"
  proof (intro ballI impI)
    fix n' assume a: "n' \<in> set (table hm ! ?i)" and mt': "matches hm m key n'"
    from lt a have "n' \<in> set (nodes hm)" by (rule chain_subset_nodes)
    then show "n' = n" using matches_unique [OF ok u st kd n _ mt mt'] by blast
  qed
  with in_chain mt have "get_loop hm m key (table hm ! ?i) = node_value n"
    by (rule get_loop_unique)
  then show ?thesis unfolding hashmap_get_def Let_def .
qed

lemma hashmap_get_absent:
  assumes inv: "hm_inv hm m"
      and no: "\<forall>n \<in> set (nodes hm). \<not> matches hm m key n"
  shows "hashmap_get hm m key = 0"
proof -
  let ?i = "bucket_index hm m (capacity hm) key"
  from inv have b: "buckets_ok hm m" unfolding hm_inv_def by blast
  then have lt: "?i < length (table hm)" by (rule index_in_range)
  have "\<forall>n \<in> set (table hm ! ?i). \<not> matches hm m key n"
    using no chain_subset_nodes [OF lt] by blast
  then have "get_loop hm m key (table hm ! ?i) = 0" by (rule get_loop_none)
  then show ?thesis unfolding hashmap_get_def Let_def .
qed

lemma hashmap_get_found:
  assumes inv: "hm_inv hm m" and g: "hashmap_get hm m key \<noteq> 0"
  shows "\<exists>n \<in> set (nodes hm). matches hm m key n \<and> hashmap_get hm m key = node_value n"
proof -
  let ?i = "bucket_index hm m (capacity hm) key"
  from inv have b: "buckets_ok hm m" unfolding hm_inv_def by blast
  then have lt: "?i < length (table hm)" by (rule index_in_range)
  have e: "hashmap_get hm m key = get_loop hm m key (table hm ! ?i)"
    unfolding hashmap_get_def Let_def ..
  with g have "get_loop hm m key (table hm ! ?i) \<noteq> 0" by simp
  then obtain n where "n \<in> set (table hm ! ?i)" "matches hm m key n"
    "get_loop hm m key (table hm ! ?i) = node_value n"
    using get_loop_found by blast
  with lt e show ?thesis using chain_subset_nodes by metis
qed

lemma mset_concat_prepend:
  "i < length t \<Longrightarrow> mset (concat (t[i := x # t ! i])) = add_mset x (mset (concat t))"
proof (induction t arbitrary: i)
  case Nil
  then show ?case by simp
next
  case (Cons c t)
  show ?case
  proof (cases i)
    case 0
    then show ?thesis by simp
  next
    case (Suc j)
    with Cons.prems have "j < length t" by simp
    then have "mset (concat (t[j := x # t ! j])) = add_mset x (mset (concat t))"
      by (rule Cons.IH)
    with Suc show ?thesis by simp
  qed
qed

lemma placed_prepend:
  assumes "placed hm m cap t" "i < length t" "bucket_index hm m cap (node_key x) = i"
  shows "placed hm m cap (t[i := x # t ! i])"
  unfolding placed_def
proof (intro allI impI ballI)
  fix j n
  assume j: "j < length (t[i := x # t ! i])" and n: "n \<in> set (t[i := x # t ! i] ! j)"
  show "bucket_index hm m cap (node_key n) = j"
  proof (cases "j = i")
    case True
    with n assms(2) have "n = x \<or> n \<in> set (t ! i)" by simp
    with assms True show ?thesis unfolding placed_def by blast
  next
    case False
    with n have "n \<in> set (t ! j)" by simp
    moreover from j have "j < length t" by simp
    ultimately show ?thesis using assms(1) unfolding placed_def by blast
  qed
qed

lemma relink_length: "length (relink hm m cap t chain) = length t"
  by (induction chain arbitrary: t) (simp_all add: Let_def)

lemma relink_mset:
  "\<forall>n \<in> set chain. bucket_index hm m cap (node_key n) < length t \<Longrightarrow>
   mset (concat (relink hm m cap t chain)) = mset chain + mset (concat t)"
proof (induction chain arbitrary: t)
  case Nil
  then show ?case by simp
next
  case (Cons c chain)
  let ?i = "bucket_index hm m cap (node_key c)"
  let ?t = "t[?i := c # t ! ?i]"
  from Cons.prems have i: "?i < length t" by simp
  from Cons.prems have "\<forall>n \<in> set chain. bucket_index hm m cap (node_key n) < length ?t"
    by simp
  then have "mset (concat (relink hm m cap ?t chain)) = mset chain + mset (concat ?t)"
    by (rule Cons.IH)
  also have "mset (concat ?t) = add_mset c (mset (concat t))"
    using i by (rule mset_concat_prepend)
  finally show ?case by (simp add: Let_def)
qed

lemma relink_placed:
  "placed hm m cap t \<Longrightarrow>
   \<forall>n \<in> set chain. bucket_index hm m cap (node_key n) < length t \<Longrightarrow>
   placed hm m cap (relink hm m cap t chain)"
proof (induction chain arbitrary: t)
  case Nil
  then show ?case by simp
next
  case (Cons c chain)
  let ?i = "bucket_index hm m cap (node_key c)"
  let ?t = "t[?i := c # t ! ?i]"
  from Cons.prems(2) have i: "?i < length t" by simp
  with Cons.prems(1) have "placed hm m cap ?t" by (simp add: placed_prepend)
  moreover from Cons.prems(2)
  have "\<forall>n \<in> set chain. bucket_index hm m cap (node_key n) < length ?t" by simp
  ultimately have "placed hm m cap (relink hm m cap ?t chain)" by (rule Cons.IH)
  then show ?case by (simp add: Let_def)
qed

lemma rehash_length:
  "length (foldl (relink hm m cap) t cs) = length t"
  by (induction cs arbitrary: t) (simp_all add: relink_length)

lemma rehash_mset:
  "cap \<noteq> 0 \<Longrightarrow> length t = unat cap \<Longrightarrow>
   mset (concat (foldl (relink hm m cap) t cs)) = mset (concat cs) + mset (concat t)"
proof (induction cs arbitrary: t)
  case Nil
  then show ?case by simp
next
  case (Cons c cs)
  have idx: "\<forall>n \<in> set c. bucket_index hm m cap (node_key n) < length t"
    using Cons.prems bucket_index_less by simp
  have "length (relink hm m cap t c) = unat cap"
    using Cons.prems(2) by (simp add: relink_length)
  with Cons.prems(1)
  have "mset (concat (foldl (relink hm m cap) (relink hm m cap t c) cs)) =
        mset (concat cs) + mset (concat (relink hm m cap t c))"
    by (rule Cons.IH)
  also have "mset (concat (relink hm m cap t c)) = mset c + mset (concat t)"
    using idx by (rule relink_mset)
  finally show ?case by simp
qed

lemma rehash_placed:
  "cap \<noteq> 0 \<Longrightarrow> length t = unat cap \<Longrightarrow> placed hm m cap t \<Longrightarrow>
   placed hm m cap (foldl (relink hm m cap) t cs)"
proof (induction cs arbitrary: t)
  case Nil
  then show ?case by simp
next
  case (Cons c cs)
  have idx: "\<forall>n \<in> set c. bucket_index hm m cap (node_key n) < length t"
    using Cons.prems bucket_index_less by simp
  have len: "length (relink hm m cap t c) = unat cap"
    using Cons.prems(2) by (simp add: relink_length)
  have "placed hm m cap (relink hm m cap t c)"
    using Cons.prems(3) idx by (rule relink_placed)
  with Cons.prems(1) len
  have "placed hm m cap (foldl (relink hm m cap) (relink hm m cap t c) cs)"
    by (rule Cons.IH)
  then show ?case by simp
qed

lemma placed_empty: "placed hm m cap (replicate k [])"
  by (simp add: placed_def)

lemma alloc_attempt_cells:
  "alloc_attempt m = (ok, m') \<Longrightarrow> cells m' = cells m \<and> next_addr m' = next_addr m"
  by (auto simp: alloc_attempt_def split: list.splits)

lemma load_cong: "cells m' = cells m \<Longrightarrow> load m' p = load m p"
  by (simp add: load_def)

lemma bucket_index_cong:
  "fn_hash hm' = fn_hash hm \<Longrightarrow> key_size hm' = key_size hm \<Longrightarrow>
   load m' p = load m p \<Longrightarrow> bucket_index hm' m' cap p = bucket_index hm m cap p"
  by (simp add: bucket_index_def)

lemma key_eq_cong:
  "fn_compare hm' = fn_compare hm \<Longrightarrow> key_size hm' = key_size hm \<Longrightarrow>
   key_eq hm' = key_eq hm"
  by (simp add: key_eq_def fun_eq_iff)

lemma clamp_capacity_ge: "HASHMAP_MINIMAL_CAPACITY \<le> clamp_capacity c"
  by (simp add: clamp_capacity_def not_less)

lemma clamp_capacity_nonzero: "clamp_capacity c \<noteq> 0"
  by (auto simp: clamp_capacity_def HASHMAP_MINIMAL_CAPACITY_def)

lemma resize_failure:
  "alloc_attempt m = (False, m1) \<Longrightarrow> resize hm m c = (hm, m1)"
  by (simp add: resize_def Let_def)

lemma resize_success:
  assumes len: "length (table hm) = unat (capacity hm)"
      and al: "alloc_attempt m = (True, m1)"
  shows "\<exists>T. resize hm m c = (hm\<lparr>table := T, capacity := clamp_capacity c\<rparr>, m1) \<and>
             length T = unat (clamp_capacity c) \<and>
             mset (concat T) = mset (nodes hm) \<and>
             placed hm m1 (clamp_capacity c) T"
proof -
  let ?nc = "clamp_capacity c"
  let ?T = "foldl (relink hm m1 ?nc) (replicate (unat ?nc) []) (table hm)"
  have all: "map ((!) (table hm)) [0..<unat (capacity hm)] = table hm"
    using len map_nth [of "table hm"] by simp
  have "resize hm m c = (hm\<lparr>table := ?T, capacity := ?nc\<rparr>, m1)"
    using al all by (simp add: resize_def Let_def clamp_capacity_def)
  moreover have "length ?T = unat ?nc" by (simp add: rehash_length)
  moreover have "mset (concat ?T) = mset (nodes hm)"
    using rehash_mset [OF clamp_capacity_nonzero, of "replicate (unat ?nc) []" c hm m1 "table hm"]
    by (simp add: nodes_def)
  moreover have "placed hm m1 ?nc ?T"
    using rehash_placed [OF clamp_capacity_nonzero, of "replicate (unat ?nc) []" c hm m1 "table hm"]
    by (simp add: placed_empty)
  ultimately show ?thesis by blast
qed

lemma key_eq_update [simp]:
  "key_eq (hm\<lparr>table := T\<rparr>) = key_eq hm"
  "key_eq (hm\<lparr>capacity := c\<rparr>) = key_eq hm"
  "key_eq (hm\<lparr>count := k\<rparr>) = key_eq hm"
  by (simp_all add: key_eq_def fun_eq_iff)

lemma matches_update [simp]:
  "matches (hm\<lparr>table := T\<rparr>) = matches hm"
  "matches (hm\<lparr>capacity := c\<rparr>) = matches hm"
  "matches (hm\<lparr>count := k\<rparr>) = matches hm"
  by (simp_all add: matches_def fun_eq_iff)

lemma bucket_index_update [simp]:
  "bucket_index (hm\<lparr>table := T\<rparr>) = bucket_index hm"
  "bucket_index (hm\<lparr>capacity := c\<rparr>) = bucket_index hm"
  "bucket_index (hm\<lparr>count := k\<rparr>) = bucket_index hm"
  by (simp_all add: bucket_index_def fun_eq_iff)

lemma default_ownership_update [simp]:
  "default_ownership (hm\<lparr>table := T\<rparr>) = default_ownership hm"
  "default_ownership (hm\<lparr>capacity := c\<rparr>) = default_ownership hm"
  "default_ownership (hm\<lparr>count := k\<rparr>) = default_ownership hm"
  by (simp_all add: default_ownership_def)

lemma keys_coherent_update [simp]:
  "keys_coherent (hm\<lparr>table := T\<rparr>) = keys_coherent hm"
  "keys_coherent (hm\<lparr>capacity := c\<rparr>) = keys_coherent hm"
  "keys_coherent (hm\<lparr>count := k\<rparr>) = keys_coherent hm"
  unfolding keys_coherent_def fun_eq_iff by simp_all

lemma strategies_ok_update [simp]:
  "strategies_ok (hm\<lparr>table := T\<rparr>) = strategies_ok hm"
  "strategies_ok (hm\<lparr>capacity := c\<rparr>) = strategies_ok hm"
  "strategies_ok (hm\<lparr>count := k\<rparr>) = strategies_ok hm"
  unfolding strategies_ok_def fun_eq_iff by simp_all

lemma stored_in_update [simp]:
  "stored_in (hm\<lparr>capacity := c\<rparr>) = stored_in hm"
  "stored_in (hm\<lparr>count := k\<rparr>) = stored_in hm"
  unfolding stored_in_def fun_eq_iff nodes_def by simp_all

lemma nodes_update [simp]:
  "nodes (hm\<lparr>table := T\<rparr>) = concat T"
  "nodes (hm\<lparr>capacity := c\<rparr>) = nodes hm"
  "nodes (hm\<lparr>count := k\<rparr>) = nodes hm"
  by (simp_all add: nodes_def)

lemma placed_update [simp]:
  "placed (hm\<lparr>table := T\<rparr>) = placed hm"
  "placed (hm\<lparr>capacity := c\<rparr>) = placed hm"
  "placed (hm\<lparr>count := k\<rparr>) = placed hm"
  by (simp_all add: placed_def fun_eq_iff)

lemma buckets_ok_placed:
  "buckets_ok hm m \<longleftrightarrow>
     length (table hm) = unat (capacity hm) \<and>
     HASHMAP_MINIMAL_CAPACITY \<le> capacity hm \<and>
     placed hm m (capacity hm) (table hm)"
  by (simp add: buckets_ok_def placed_def)

lemma placed_cong:
  assumes "placed hm m cap t"
      and "\<forall>n \<in> set (concat t). load m' (node_key n) = load m (node_key n)"
  shows "placed hm m' cap t"
  unfolding placed_def
proof (intro allI impI ballI)
  fix i n assume i: "i < length t" and n: "n \<in> set (t ! i)"
  then have "n \<in> set (concat t)" using nth_mem by fastforce
  with assms(2) have "load m' (node_key n) = load m (node_key n)" by blast
  then have "bucket_index hm m' cap (node_key n) = bucket_index hm m cap (node_key n)"
    by (simp add: bucket_index_def)
  with assms(1) i n show "bucket_index hm m' cap (node_key n) = i"
    unfolding placed_def by simp
qed

lemma distinct_addrs_mset:
  assumes "mset ys = mset xs"
  shows "distinct (map f ys @ map g ys) \<longleftrightarrow> distinct (map f xs @ map g xs)"
proof -
  have "mset (map f ys @ map g ys) = mset (map f xs @ map g xs)"
    using assms by simp
  then show ?thesis by (rule mset_eq_imp_distinct_iff)
qed

lemma separated_transfer:
  assumes "separated hm m" "mset (nodes hm') = mset (nodes hm)"
      and "cells m' = cells m" "next_addr m \<le> next_addr m'"
  shows "separated hm' m'"
proof -
  have st: "set (nodes hm') = set (nodes hm)" using assms(2) by (rule mset_eq_setD)
  have di: "distinct (map node_key (nodes hm') @ map node_value (nodes hm')) \<longleftrightarrow>
        distinct (map node_key (nodes hm) @ map node_value (nodes hm))"
    using assms(2) by (rule distinct_addrs_mset)
  from assms(1) have d: "distinct (map node_key (nodes hm) @ map node_value (nodes hm))"
    and dm: "\<forall>n \<in> set (nodes hm). node_key n \<in> dom (cells m) \<and> node_value n \<in> dom (cells m)"
    and w: "\<forall>a \<in> dom (cells m). 0 < a \<and> a < next_addr m"
    and nz: "0 < next_addr m"
    unfolding separated_def by blast+
  have "distinct (map node_key (nodes hm') @ map node_value (nodes hm'))"
    using di d by blast
  moreover have "\<forall>n \<in> set (nodes hm').
      node_key n \<in> dom (cells m') \<and> node_value n \<in> dom (cells m')"
    unfolding st assms(3) using dm .
  moreover have "0 < next_addr m'" using nz assms(4) by simp
  moreover have "\<forall>a \<in> dom (cells m'). 0 < a \<and> a < next_addr m'"
  proof
    fix a assume "a \<in> dom (cells m')"
    then have "a \<in> dom (cells m)" unfolding assms(3) .
    with w have "0 < a \<and> a < next_addr m" by blast
    with assms(4) show "0 < a \<and> a < next_addr m'" by simp
  qed
  ultimately show ?thesis unfolding separated_def by blast
qed

lemma keys_unique_transfer:
  assumes "keys_unique hm m" "set (nodes hm') = set (nodes hm)"
      and "key_eq hm' = key_eq hm"
      and "\<forall>n \<in> set (nodes hm). load m' (node_key n) = load m (node_key n)"
  shows "keys_unique hm' m'"
  using assms unfolding keys_unique_def by simp

lemma same_config_refl [simp]: "same_config hm hm"
  by (simp add: same_config_def)

lemma same_config_update:
  assumes "same_config hm hm'"
  shows "same_config hm (hm'\<lparr>table := T\<rparr>)"
    and "same_config hm (hm'\<lparr>capacity := c\<rparr>)"
    and "same_config hm (hm'\<lparr>count := k\<rparr>)"
proof -
  from assms have e: "hm' = hm\<lparr>table := table hm', capacity := capacity hm', count := count hm'\<rparr>"
    unfolding same_config_def .
  show "same_config hm (hm'\<lparr>table := T\<rparr>)"
    unfolding same_config_def using arg_cong [OF e, of "\<lambda>h. h\<lparr>table := T\<rparr>"] by simp
  show "same_config hm (hm'\<lparr>capacity := c\<rparr>)"
    unfolding same_config_def using arg_cong [OF e, of "\<lambda>h. h\<lparr>capacity := c\<rparr>"] by simp
  show "same_config hm (hm'\<lparr>count := k\<rparr>)"
    unfolding same_config_def using arg_cong [OF e, of "\<lambda>h. h\<lparr>count := k\<rparr>"] by simp
qed

lemma same_config_trans:
  assumes "same_config a b" "same_config b c"
  shows "same_config a c"
proof -
  from assms(1) have e: "b = a\<lparr>table := table b, capacity := capacity b, count := count b\<rparr>"
    unfolding same_config_def .
  from assms(2) have "c = b\<lparr>table := table c, capacity := capacity c, count := count c\<rparr>"
    unfolding same_config_def .
  also have "\<dots> = a\<lparr>table := table c, capacity := capacity c, count := count c\<rparr>"
    using arg_cong [OF e,
        of "\<lambda>h. h\<lparr>table := table c, capacity := capacity c, count := count c\<rparr>"]
    by simp
  finally show ?thesis unfolding same_config_def .
qed

lemma same_config_fields:
  assumes "same_config hm hm'"
  shows "key_size hm' = key_size hm" and "value_size hm' = value_size hm"
    and "fn_hash hm' = fn_hash hm" and "fn_compare hm' = fn_compare hm"
    and "load_balance_threshold_min hm' = load_balance_threshold_min hm"
    and "load_balance_threshold_max hm' = load_balance_threshold_max hm"
    and "key_eq hm' = key_eq hm" and "matches hm' = matches hm"
    and "bucket_index hm' = bucket_index hm"
    and "strategies_ok hm' = strategies_ok hm"
    and "default_ownership hm' = default_ownership hm"
    and "keys_coherent hm' = keys_coherent hm"
proof -
  from assms have e: "hm' = hm\<lparr>table := table hm', capacity := capacity hm', count := count hm'\<rparr>"
    unfolding same_config_def .
  show "key_size hm' = key_size hm" using arg_cong [OF e, of key_size] by simp
  show "value_size hm' = value_size hm" using arg_cong [OF e, of value_size] by simp
  show "fn_hash hm' = fn_hash hm" using arg_cong [OF e, of fn_hash] by simp
  show "fn_compare hm' = fn_compare hm" using arg_cong [OF e, of fn_compare] by simp
  show "load_balance_threshold_min hm' = load_balance_threshold_min hm"
    using arg_cong [OF e, of load_balance_threshold_min] by simp
  show "load_balance_threshold_max hm' = load_balance_threshold_max hm"
    using arg_cong [OF e, of load_balance_threshold_max] by simp
  show "key_eq hm' = key_eq hm" using arg_cong [OF e, of key_eq] by simp
  show "matches hm' = matches hm" using arg_cong [OF e, of matches] by simp
  show "bucket_index hm' = bucket_index hm" using arg_cong [OF e, of bucket_index] by simp
  show "strategies_ok hm' = strategies_ok hm" using arg_cong [OF e, of strategies_ok] by simp
  show "default_ownership hm' = default_ownership hm"
    using arg_cong [OF e, of default_ownership] by simp
  show "keys_coherent hm' = keys_coherent hm" using arg_cong [OF e, of keys_coherent] by simp
qed

lemma hm_inv_rehash:
  assumes inv: "hm_inv hm m"
      and mem: "cells m' = cells m" "next_addr m \<le> next_addr m'"
      and len: "length T = unat c" and cap: "HASHMAP_MINIMAL_CAPACITY \<le> c"
      and pl: "placed hm m' c T"
      and ms: "mset (concat T) = mset (nodes hm)"
  shows "hm_inv (hm\<lparr>table := T, capacity := c\<rparr>) m'"
proof -
  let ?hm = "hm\<lparr>table := T, capacity := c\<rparr>"
  have nd: "mset (nodes ?hm) = mset (nodes hm)" using ms by simp
  then have st: "set (nodes ?hm) = set (nodes hm)" by (rule mset_eq_setD)
  have "buckets_ok ?hm m'"
    using len cap pl by (simp add: buckets_ok_placed)
  moreover have "separated ?hm m'"
    using inv nd mem unfolding hm_inv_def by (blast intro: separated_transfer)
  moreover have "keys_unique ?hm m'"
  proof (rule keys_unique_transfer [OF _ st])
    show "keys_unique hm m" using inv unfolding hm_inv_def by blast
    show "key_eq ?hm = key_eq hm" by simp
    show "\<forall>n \<in> set (nodes hm). load m' (node_key n) = load m (node_key n)"
      using load_cong [OF mem(1)] by simp
  qed
  ultimately show ?thesis unfolding hm_inv_def by blast
qed

lemma hm_inv_cells_cong:
  assumes "hm_inv hm m" "cells m' = cells m" "next_addr m \<le> next_addr m'"
  shows "hm_inv hm m'"
proof -
  from assms(1) have b: "buckets_ok hm m" unfolding hm_inv_def by blast
  then have len: "length (table hm) = unat (capacity hm)"
    and cap: "HASHMAP_MINIMAL_CAPACITY \<le> capacity hm"
    and pl: "placed hm m (capacity hm) (table hm)"
    unfolding buckets_ok_placed by blast+
  have "\<forall>n \<in> set (concat (table hm)). load m' (node_key n) = load m (node_key n)"
    using load_cong [OF assms(2)] by simp
  with pl have pl': "placed hm m' (capacity hm) (table hm)" by (rule placed_cong)
  have ms: "mset (concat (table hm)) = mset (nodes hm)" by (simp add: nodes_def)
  have "hm_inv (hm\<lparr>table := table hm, capacity := capacity hm\<rparr>) m'"
    using assms(1) assms(2) assms(3) len cap pl' ms by (rule hm_inv_rehash)
  then show ?thesis by simp
qed

lemma resize_inv:
  assumes inv: "hm_inv hm m" and r: "resize hm m c = (hm', m')"
  shows "hm_inv hm' m'"
    and "mset (nodes hm') = mset (nodes hm)"
    and "cells m' = cells m" and "next_addr m' = next_addr m"
    and "same_config hm hm'" and "count hm' = count hm"
    and "capacity hm' = capacity hm \<or> capacity hm' = clamp_capacity c"
proof -
  obtain ok m1 where al: "alloc_attempt m = (ok, m1)" by (cases "alloc_attempt m")
  then have mem: "cells m1 = cells m" "next_addr m1 = next_addr m"
    using alloc_attempt_cells by blast+
  from inv have len: "length (table hm) = unat (capacity hm)"
    unfolding hm_inv_def buckets_ok_def by blast
  have "hm_inv hm' m' \<and> mset (nodes hm') = mset (nodes hm) \<and> cells m' = cells m \<and>
        next_addr m' = next_addr m \<and>
        same_config hm hm' \<and> count hm' = count hm \<and>
        (capacity hm' = capacity hm \<or> capacity hm' = clamp_capacity c)"
  proof (cases ok)
    case False
    with al r have "hm' = hm" "m' = m1" by (simp_all add: resize_failure)
    with inv mem show ?thesis by (simp add: hm_inv_cells_cong)
  next
    case True
    with al have al': "alloc_attempt m = (True, m1)" by simp
    obtain T where
      T: "resize hm m c = (hm\<lparr>table := T, capacity := clamp_capacity c\<rparr>, m1)"
         "length T = unat (clamp_capacity c)"
         "mset (concat T) = mset (nodes hm)"
         "placed hm m1 (clamp_capacity c) T"
      using resize_success [OF len al', of c] by blast
    with r have eq: "hm' = hm\<lparr>table := T, capacity := clamp_capacity c\<rparr>" "m' = m1"
      by simp_all
    have le: "next_addr m \<le> next_addr m1" using mem(2) by simp
    have "hm_inv (hm\<lparr>table := T, capacity := clamp_capacity c\<rparr>) m1"
      using inv mem(1) le T(2) clamp_capacity_ge T(4) T(3) by (rule hm_inv_rehash)
    with eq mem T(3) show ?thesis by (simp add: same_config_def)
  qed
  then show "hm_inv hm' m'"
    and "mset (nodes hm') = mset (nodes hm)"
    and "cells m' = cells m" and "next_addr m' = next_addr m"
    and "same_config hm hm'" and "count hm' = count hm"
    and "capacity hm' = capacity hm \<or> capacity hm' = clamp_capacity c"
    by blast+
qed

lemma hashmap_get_transfer:
  assumes ok: "keys_coherent hm D"
      and inv: "hm_inv hm m" and inv': "hm_inv hm' m'"
      and sd: "stored_in hm m D" and kd: "load m key \<in> D"
      and ok': "keys_coherent hm' D" and ke: "key_eq hm' = key_eq hm"
      and st: "set (nodes hm') = set (nodes hm)"
      and ld: "\<forall>n \<in> set (nodes hm). load m' (node_key n) = load m (node_key n)"
      and k: "load m' key' = load m key"
  shows "hashmap_get hm' m' key' = hashmap_get hm m key"
proof -
  have mt: "\<And>n. n \<in> set (nodes hm) \<Longrightarrow> matches hm' m' key' n = matches hm m key n"
    using ke ld k by (simp add: matches_def)
  have sd': "stored_in hm' m' D"
    using sd st ld unfolding stored_in_def by simp
  have kd': "load m' key' \<in> D" using kd k by simp
  show ?thesis
  proof (cases "\<exists>n \<in> set (nodes hm). matches hm m key n")
    case True
    then obtain n where n: "n \<in> set (nodes hm)" "matches hm m key n" by blast
    have "hashmap_get hm m key = node_value n"
      using ok inv sd kd n by (rule hashmap_get_present)
    moreover have "n \<in> set (nodes hm')" "matches hm' m' key' n"
      using n st mt by simp_all
    with ok' inv' sd' kd' have "hashmap_get hm' m' key' = node_value n"
      by (rule hashmap_get_present)
    ultimately show ?thesis by simp
  next
    case False
    then have "hashmap_get hm m key = 0"
      using inv by (simp add: hashmap_get_absent)
    moreover have "hashmap_get hm' m' key' = 0"
      using inv' False st mt by (simp add: hashmap_get_absent)
    ultimately show ?thesis by simp
  qed
qed

section \<open>Allocation, node creation and insertion\<close>

lemma hm_inv_update_count [simp]: "hm_inv (hm\<lparr>count := k\<rparr>) m = hm_inv hm m"
  by (simp add: hm_inv_def buckets_ok_placed separated_def keys_unique_def)

lemma malloc_cases:
  assumes "malloc m n = (p, m')" "0 < next_addr m"
  shows "(p = 0 \<and> cells m' = cells m \<and> next_addr m' = next_addr m) \<or>
         (p = next_addr m \<and> cells m' = (cells m)(p \<mapsto> replicate n 0) \<and>
          next_addr m' = Suc p)"
proof -
  obtain ok m1 where al: "alloc_attempt m = (ok, m1)" by (cases "alloc_attempt m")
  then have mem: "cells m1 = cells m" "next_addr m1 = next_addr m"
    using alloc_attempt_cells by blast+
  show ?thesis
  proof (cases ok)
    case True
    with al assms(1) mem show ?thesis by (auto simp: malloc_def)
  next
    case False
    with al assms(1) mem show ?thesis by (auto simp: malloc_def)
  qed
qed

lemma default_copy_cases:
  assumes c: "default_fn_alloc_copy m src sz = (p, m')"
      and nz: "0 < next_addr m" and src: "src \<noteq> next_addr m"
  shows "(p = 0 \<and> cells m' = cells m \<and> next_addr m' = next_addr m) \<or>
         (p = next_addr m \<and>
          cells m' = (cells m)(p \<mapsto> take (unat sz) (load m src)) \<and>
          next_addr m' = Suc p)"
proof -
  obtain q m1 where ml: "malloc m (unat sz) = (q, m1)" by (cases "malloc m (unat sz)")
  from malloc_cases [OF ml nz] show ?thesis
  proof
    assume "q = 0 \<and> cells m1 = cells m \<and> next_addr m1 = next_addr m"
    with c ml show ?thesis by (simp add: default_fn_alloc_copy_def)
  next
    assume a: "q = next_addr m \<and> cells m1 = (cells m)(q \<mapsto> replicate (unat sz) 0) \<and>
          next_addr m1 = Suc q"
    with nz have q: "q \<noteq> 0" by simp
    with c ml have p: "p = q" "m' = memcpy m1 q src (unat sz)"
      by (auto simp: default_fn_alloc_copy_def)
    from a src have l1: "load m1 src = load m src" by (simp add: load_def)
    from a have l2: "load m1 q = replicate (unat sz) 0" by (simp add: load_def)
    from p a l1 l2 show ?thesis by (simp add: memcpy_def)
  qed
qed

lemma node_create_cases:
  assumes own: "default_ownership hm"
      and nz: "0 < next_addr m" and free_next: "cells m (next_addr m) = None"
      and k: "key < next_addr m" and v: "val < next_addr m"
      and nc: "node_create hm m key val = (r, m')"
  shows "(r = None \<and> cells m' = cells m \<and> next_addr m \<le> next_addr m') \<or>
         (r = Some \<lparr>node_key = next_addr m, node_value = Suc (next_addr m)\<rparr> \<and>
          cells m' = (cells m)
             (next_addr m \<mapsto> take (unat (key_size hm)) (load m key),
              Suc (next_addr m) \<mapsto> take (unat (value_size hm)) (load m val)) \<and>
          next_addr m' = Suc (Suc (next_addr m)))"
proof -
  from own have ck: "fn_alloc_copy_key hm = default_fn_alloc_copy"
    and cv: "fn_alloc_copy_value hm = default_fn_alloc_copy"
    and dk: "fn_destroy_key hm = default_fn_destroy"
    by (simp_all add: default_ownership_def)
  obtain ok m1 where al: "alloc_attempt m = (ok, m1)" by (cases "alloc_attempt m")
  then have mem1: "cells m1 = cells m" "next_addr m1 = next_addr m"
    using alloc_attempt_cells by blast+
  show ?thesis
  proof (cases ok)
    case False
    with al nc mem1 show ?thesis by (simp add: node_create_def)
  next
    case True
    obtain kp m2 where c1: "default_fn_alloc_copy m1 key (key_size hm) = (kp, m2)"
      by (cases "default_fn_alloc_copy m1 key (key_size hm)")
    have l1: "load m1 key = load m key" using mem1 by (simp add: load_def)
    from default_copy_cases [OF c1] nz k mem1
    have "(kp = 0 \<and> cells m2 = cells m \<and> next_addr m2 = next_addr m) \<or>
         (kp = next_addr m \<and>
          cells m2 = (cells m)(kp \<mapsto> take (unat (key_size hm)) (load m key)) \<and>
          next_addr m2 = Suc kp)"
      using l1 by simp
    then show ?thesis
    proof
      assume "kp = 0 \<and> cells m2 = cells m \<and> next_addr m2 = next_addr m"
      with al True nc c1 ck show ?thesis by (simp add: node_create_def)
    next
      assume a2: "kp = next_addr m \<and>
          cells m2 = (cells m)(kp \<mapsto> take (unat (key_size hm)) (load m key)) \<and>
          next_addr m2 = Suc kp"
      with nz have kpnz: "kp \<noteq> 0" by simp
      obtain vp m3 where c2: "default_fn_alloc_copy m2 val (value_size hm) = (vp, m3)"
        by (cases "default_fn_alloc_copy m2 val (value_size hm)")
      have l2: "load m2 val = load m val" using a2 v by (simp add: load_def)
      from default_copy_cases [OF c2] a2 v
      have "(vp = 0 \<and> cells m3 = cells m2 \<and> next_addr m3 = next_addr m2) \<or>
         (vp = next_addr m2 \<and>
          cells m3 = (cells m2)(vp \<mapsto> take (unat (value_size hm)) (load m val)) \<and>
          next_addr m3 = Suc vp)"
        using l2 by simp
      then show ?thesis
      proof
        assume a3: "vp = 0 \<and> cells m3 = cells m2 \<and> next_addr m3 = next_addr m2"
        with al True nc c1 c2 ck cv dk kpnz
        have "r = None" "m' = free m3 kp"
          by (simp_all add: node_create_def default_fn_destroy_def)
        moreover have "cells (free m3 kp) = cells m"
          using a3 a2 free_next by (simp add: free_def fun_eq_iff)
        moreover have "next_addr (free m3 kp) = Suc (next_addr m)"
          using a3 a2 by (simp add: free_def)
        ultimately show ?thesis by simp
      next
        assume a3: "vp = next_addr m2 \<and>
          cells m3 = (cells m2)(vp \<mapsto> take (unat (value_size hm)) (load m val)) \<and>
          next_addr m3 = Suc vp"
        with a2 have vpnz: "vp \<noteq> 0" by simp
        with al True nc c1 c2 ck cv kpnz
        have "r = Some \<lparr>node_key = kp, node_value = vp\<rparr>" "m' = m3"
          by (simp_all add: node_create_def)
        with a2 a3 show ?thesis by simp
      qed
    qed
  qed
qed


lemma auto_grow_inv:
  assumes inv: "hm_inv hm m" and r: "auto_grow hm m = (hm', m')"
  shows "hm_inv hm' m'"
    and "mset (nodes hm') = mset (nodes hm)"
    and "cells m' = cells m" and "next_addr m' = next_addr m"
    and "same_config hm hm'" and "count hm' = count hm"
proof -
  have "hm_inv hm' m' \<and> mset (nodes hm') = mset (nodes hm) \<and> cells m' = cells m \<and>
        next_addr m' = next_addr m \<and>
        same_config hm hm' \<and> count hm' = count hm"
  proof (cases "load_balance (count hm) (capacity hm) > load_balance_threshold_max hm")
    case True
    with r have "resize hm m (get_auto_growth_new_capacity hm) = (hm', m')"
      by (simp add: auto_grow_def)
    from resize_inv [OF inv this] show ?thesis by blast
  next
    case False
    with r have "hm' = hm" "m' = m" by (simp_all add: auto_grow_def)
    with inv show ?thesis by simp
  qed
  then show "hm_inv hm' m'"
    and "mset (nodes hm') = mset (nodes hm)"
    and "cells m' = cells m" and "next_addr m' = next_addr m"
    and "same_config hm hm'" and "count hm' = count hm"
    by blast+
qed

lemma auto_shrink_inv:
  assumes inv: "hm_inv hm m" and r: "auto_shrink hm m = (hm', m')"
  shows "hm_inv hm' m'"
    and "mset (nodes hm') = mset (nodes hm)"
    and "cells m' = cells m" and "next_addr m' = next_addr m"
    and "same_config hm hm'" and "count hm' = count hm"
proof -
  have "hm_inv hm' m' \<and> mset (nodes hm') = mset (nodes hm) \<and> cells m' = cells m \<and>
        next_addr m' = next_addr m \<and>
        same_config hm hm' \<and> count hm' = count hm"
  proof (cases "load_balance (count hm) (capacity hm) < load_balance_threshold_min hm")
    case True
    with r have "resize hm m (get_auto_shrink_new_capacity hm) = (hm', m')"
      by (simp add: auto_shrink_def)
    from resize_inv [OF inv this] show ?thesis by blast
  next
    case False
    with r have "hm' = hm" "m' = m" by (simp_all add: auto_shrink_def)
    with inv show ?thesis by simp
  qed
  then show "hm_inv hm' m'"
    and "mset (nodes hm') = mset (nodes hm)"
    and "cells m' = cells m" and "next_addr m' = next_addr m"
    and "same_config hm hm'" and "count hm' = count hm"
    by blast+
qed

lemma node_addrs_live:
  assumes "hm_inv hm m" "n \<in> set (nodes hm)"
  shows "0 < node_key n" "node_key n < next_addr m" "0 < node_value n"
    "node_value n < next_addr m" "cells m (node_key n) \<noteq> None"
    "cells m (node_value n) \<noteq> None"
proof -
  from assms have d: "node_key n \<in> dom (cells m)" "node_value n \<in> dom (cells m)"
    unfolding hm_inv_def separated_def by blast+
  from assms(1) have w: "\<forall>a \<in> dom (cells m). 0 < a \<and> a < next_addr m"
    unfolding hm_inv_def separated_def by blast
  from d w show "0 < node_key n" "node_key n < next_addr m" "0 < node_value n"
    "node_value n < next_addr m" by blast+
  from d show "cells m (node_key n) \<noteq> None" "cells m (node_value n) \<noteq> None"
    by blast+
qed

lemma mem_wf:
  assumes "hm_inv hm m"
  shows "0 < next_addr m" "cells m (next_addr m) = None"
    "\<And>a. a \<in> dom (cells m) \<Longrightarrow> 0 < a \<and> a < next_addr m"
proof -
  from assms have w: "\<forall>a \<in> dom (cells m). 0 < a \<and> a < next_addr m"
    and "0 < next_addr m"
    unfolding hm_inv_def separated_def by blast+
  then show "0 < next_addr m" by blast
  from w show "cells m (next_addr m) = None" by (metis domIff less_irrefl)
  from w show "\<And>a. a \<in> dom (cells m) \<Longrightarrow> 0 < a \<and> a < next_addr m" by blast
qed

lemma get_absent_no_match:
  assumes ok: "keys_coherent hm D" and inv: "hm_inv hm m"
      and st: "stored_in hm m D" and kd: "load m key \<in> D"
      and g: "hashmap_get hm m key = 0" and n: "n \<in> set (nodes hm)"
  shows "\<not> matches hm m key n"
proof
  assume "matches hm m key n"
  with ok inv st kd n have "hashmap_get hm m key = node_value n"
    by (rule hashmap_get_present)
  moreover have "0 < node_value n" using inv n by (rule node_addrs_live)
  ultimately show False using g by simp
qed

lemma hm_inv_insert:
  assumes inv: "hm_inv hm m"
      and cells': "cells m' = (cells m)(next_addr m \<mapsto> kc, Suc (next_addr m) \<mapsto> vc)"
      and next': "next_addr m' = Suc (Suc (next_addr m))"
      and i: "i = bucket_index hm m' (capacity hm) (next_addr m)"
      and nomatch: "\<forall>n \<in> set (nodes hm).
              \<not> key_eq hm kc (load m (node_key n)) \<and> \<not> key_eq hm (load m (node_key n)) kc"
  shows "hm_inv (hm\<lparr>table :=
            (table hm)[i := \<lparr>node_key = next_addr m, node_value = Suc (next_addr m)\<rparr>
                            # table hm ! i]\<rparr>) m'"
    (is "hm_inv ?hm' m'")
proof -
  let ?k = "next_addr m" and ?v = "Suc (next_addr m)"
  let ?nd = "\<lparr>node_key = ?k, node_value = ?v\<rparr>"
  let ?T = "(table hm)[i := ?nd # table hm ! i]"
  from inv have b: "buckets_ok hm m" and sp: "separated hm m" and u: "keys_unique hm m"
    unfolding hm_inv_def by blast+
  from b have len: "length (table hm) = unat (capacity hm)"
    and cap: "HASHMAP_MINIMAL_CAPACITY \<le> capacity hm"
    and pl: "placed hm m (capacity hm) (table hm)"
    unfolding buckets_ok_placed by blast+
  have ilt: "i < length (table hm)"
    unfolding i len using buckets_ok_capacity_nonzero [OF b] by (rule bucket_index_less)
  have old: "\<And>n. n \<in> set (nodes hm) \<Longrightarrow>
      node_key n < ?k \<and> node_value n < ?k \<and> 0 < node_key n \<and> 0 < node_value n"
    using node_addrs_live [OF inv] by blast
  have ld: "\<And>n. n \<in> set (nodes hm) \<Longrightarrow> load m' (node_key n) = load m (node_key n)"
  proof -
    fix n assume "n \<in> set (nodes hm)"
    with old have "node_key n \<noteq> ?k" "node_key n \<noteq> ?v" by fastforce+
    then show "load m' (node_key n) = load m (node_key n)"
      unfolding load_def cells' by simp
  qed
  have ldk: "load m' ?k = kc" unfolding load_def cells' by simp
  have ms: "mset (concat ?T) = add_mset ?nd (mset (nodes hm))"
    unfolding nodes_def using ilt by (rule mset_concat_prepend)
  then have st: "set (concat ?T) = insert ?nd (set (nodes hm))"
    by (metis mset_eq_setD set_mset_add_mset_insert set_mset_mset)
  have "buckets_ok ?hm' m'"
  proof -
    have "\<forall>n \<in> set (concat (table hm)). load m' (node_key n) = load m (node_key n)"
      using ld unfolding nodes_def by blast
    with pl have "placed hm m' (capacity hm) (table hm)" by (rule placed_cong)
    then have "placed hm m' (capacity hm) ?T"
      using ilt i by (intro placed_prepend) simp_all
    with len cap show ?thesis by (simp add: buckets_ok_placed)
  qed
  moreover have "separated ?hm' m'"
  proof -
    from sp have d: "distinct (map node_key (nodes hm) @ map node_value (nodes hm))"
      and dm: "\<forall>n \<in> set (nodes hm). node_key n \<in> dom (cells m) \<and> node_value n \<in> dom (cells m)"
      and w: "\<forall>a \<in> dom (cells m). 0 < a \<and> a < next_addr m"
      and nz: "0 < next_addr m"
      unfolding separated_def by blast+
    have "mset (concat ?T) = mset (?nd # nodes hm)" using ms by simp
    then have "distinct (map node_key (concat ?T) @ map node_value (concat ?T)) \<longleftrightarrow>
          distinct (map node_key (?nd # nodes hm) @ map node_value (?nd # nodes hm))"
      by (rule distinct_addrs_mset)
    moreover have "distinct (map node_key (?nd # nodes hm) @ map node_value (?nd # nodes hm))"
      using d old by fastforce
    ultimately have "distinct (map node_key (concat ?T) @ map node_value (concat ?T))"
      by blast
    moreover have "\<forall>n \<in> set (concat ?T).
        node_key n \<in> dom (cells m') \<and> node_value n \<in> dom (cells m')"
      unfolding st cells' using dm by auto
    moreover have "0 < next_addr m'" using next' by simp
    moreover have "\<forall>a \<in> dom (cells m'). 0 < a \<and> a < next_addr m'"
    proof
      fix a assume "a \<in> dom (cells m')"
      then have "a = ?k \<or> a = ?v \<or> a \<in> dom (cells m)"
        unfolding cells' by (simp add: dom_def split: if_splits)
      moreover have "a \<in> dom (cells m) \<Longrightarrow> 0 < a \<and> a < next_addr m"
        using w by blast
      ultimately show "0 < a \<and> a < next_addr m'"
        unfolding next' using nz by linarith
    qed
    ultimately show ?thesis unfolding separated_def by simp
  qed
  moreover have "keys_unique ?hm' m'"
    unfolding keys_unique_def
  proof (intro ballI impI)
    fix n1 n2
    assume n1: "n1 \<in> set (nodes ?hm')" and n2: "n2 \<in> set (nodes ?hm')"
      and e: "key_eq ?hm' (load m' (node_key n1)) (load m' (node_key n2))"
    have nd': "set (nodes ?hm') = insert ?nd (set (nodes hm))"
      unfolding nodes_update by (rule st)
    from n1 nd' have c1: "n1 = ?nd \<or> n1 \<in> set (nodes hm)" by blast
    from n2 nd' have c2: "n2 = ?nd \<or> n2 \<in> set (nodes hm)" by blast
    from e have e': "key_eq hm (load m' (node_key n1)) (load m' (node_key n2))" by simp
    show "n1 = n2"
    proof (cases "n1 = ?nd")
      case True
      note t1 = this
      show ?thesis
      proof (cases "n2 = ?nd")
        case True
        with t1 show ?thesis by simp
      next
        case False
        with c2 have in2: "n2 \<in> set (nodes hm)" by blast
        from e' t1 ldk ld [OF in2] have "key_eq hm kc (load m (node_key n2))" by simp
        with nomatch in2 show ?thesis by blast
      qed
    next
      case False
      with c1 have in1: "n1 \<in> set (nodes hm)" by blast
      show ?thesis
      proof (cases "n2 = ?nd")
        case True
        from e' True ldk ld [OF in1] have "key_eq hm (load m (node_key n1)) kc" by simp
        with nomatch in1 show ?thesis by blast
      next
        case False
        with c2 have in2: "n2 \<in> set (nodes hm)" by blast
        from e' ld [OF in1] ld [OF in2]
        have "key_eq hm (load m (node_key n1)) (load m (node_key n2))" by simp
        with u in1 in2 show ?thesis unfolding keys_unique_def by blast
      qed
    qed
  qed
  ultimately show ?thesis unfolding hm_inv_def by blast
qed

lemma hashmap_add_absent:
  assumes ok: "strategies_ok hm D" and inv: "hm_inv hm m"
      and sd: "stored_in hm m D" and kd: "load m key \<in> D"
      and kl: "key \<in> dom (cells m)" and vl: "val \<in> dom (cells m)"
      and absent: "hashmap_get hm m key = 0"
      and add: "hashmap_add hm m key val = (p, hm', m')"
  shows "hm_inv hm' m' \<and> stored_in hm' m' D \<and>
         same_config hm hm' \<and>
         (p = 0 \<longrightarrow> count hm' = count hm \<and> mset (nodes hm') = mset (nodes hm) \<and>
                  cells m' = cells m) \<and>
         (p \<noteq> 0 \<longrightarrow> p = Suc (next_addr m) \<and> count hm' = count hm + 1 \<and>
                  mset (nodes hm') =
                    add_mset \<lparr>node_key = next_addr m, node_value = p\<rparr> (mset (nodes hm)) \<and>
                  cells m' = (cells m)
                    (next_addr m \<mapsto> take (unat (key_size hm)) (load m key),
                     p \<mapsto> take (unat (value_size hm)) (load m val)) \<and>
                  next_addr m' = Suc (Suc (next_addr m)))"
proof -
  let ?hm0 = "hm\<lparr>count := count hm + 1\<rparr>"
  obtain hm1 m1 where ag: "auto_grow ?hm0 m = (hm1, m1)" by (cases "auto_grow ?hm0 m")
  have inv0: "hm_inv ?hm0 m" using inv by simp
  note g = auto_grow_inv [OF inv0 ag]
  have inv1: "hm_inv hm1 m1" by (rule g(1))
  have ms1: "mset (nodes hm1) = mset (nodes hm)" using g(2) by simp
  have c1: "cells m1 = cells m" by (rule g(3))
  have n1: "next_addr m1 = next_addr m" by (rule g(4))
  have "same_config hm ?hm0" by (rule same_config_update(3)) simp
  then have sc1: "same_config hm hm1" using g(5) by (rule same_config_trans)
  note f1 = same_config_fields [OF sc1]
  have ok1: "strategies_ok hm1 D" using ok f1 by simp
  have kc: "keys_coherent hm D" using ok by (rule strategies_ok_coherent)
  have kc1: "keys_coherent hm1 D" using ok1 by (rule strategies_ok_coherent)
  have sd1: "stored_in hm1 m1 D" using sd ms1 c1 by (rule stored_in_same_nodes)
  have ks1: "key_size hm1 = key_size hm" by (rule f1)
  have vs1: "value_size hm1 = value_size hm" by (rule f1)
  have cnt1: "count hm1 = count hm + 1" using g(6) by simp
  have ke1: "key_eq hm1 = key_eq hm" by (rule f1)
  have own1: "default_ownership hm1"
    using ok1 by (rule strategies_ok_ownership)
  obtain r m2 where nc: "node_create hm1 m1 key val = (r, m2)"
    by (cases "node_create hm1 m1 key val")
  have wf1: "0 < next_addr m1" "cells m1 (next_addr m1) = None"
    using mem_wf [OF inv1] by blast+
  have klt: "key < next_addr m1" and vlt: "val < next_addr m1"
    using mem_wf(3) [OF inv1] kl vl c1 by simp_all
  let ?i = "bucket_index hm1 m1 (capacity hm1) key"
  have res: "(p, hm', m') =
     (case r of None \<Rightarrow> (0, hm1\<lparr>count := count hm1 - 1\<rparr>, m2)
      | Some node \<Rightarrow> (node_value node,
            hm1\<lparr>table := (table hm1)[?i := node # table hm1 ! ?i]\<rparr>, m2))"
    using add absent ag nc by (simp add: hashmap_add_def Let_def split: option.splits)
  from node_create_cases [OF own1 wf1 klt vlt nc]
  show ?thesis
  proof
    assume f: "r = None \<and> cells m2 = cells m1 \<and> next_addr m1 \<le> next_addr m2"
    with res have e: "p = 0" "hm' = hm1\<lparr>count := count hm1 - 1\<rparr>" "m' = m2" by simp_all
    have "cells m2 = cells m1" "next_addr m1 \<le> next_addr m2" using f by blast+
    with inv1 have "hm_inv hm1 m2" by (rule hm_inv_cells_cong)
    then have "hm_inv hm' m'" using e by simp
    moreover have "stored_in hm' m' D"
    proof -
      have "stored_in hm1 m2 D" using sd1 _ \<open>cells m2 = cells m1\<close>
        by (rule stored_in_same_nodes) simp
      then show ?thesis unfolding e by simp
    qed
    moreover have "same_config hm hm'"
      unfolding e using sc1 by (rule same_config_update)
    moreover have "count hm' = count hm" unfolding e using cnt1 by simp
    moreover have "mset (nodes hm') = mset (nodes hm)" unfolding e using ms1 by simp
    moreover have "cells m' = cells m" using e f c1 by simp
    ultimately show ?thesis using e(1) by simp
  next
    let ?k = "next_addr m1" and ?v = "Suc (next_addr m1)"
    let ?kc = "take (unat (key_size hm1)) (load m1 key)"
    let ?vc = "take (unat (value_size hm1)) (load m1 val)"
    let ?nd = "\<lparr>node_key = ?k, node_value = ?v\<rparr>"
    assume s: "r = Some ?nd \<and> cells m2 = (cells m1)(?k \<mapsto> ?kc, ?v \<mapsto> ?vc) \<and>
          next_addr m2 = Suc (Suc (next_addr m1))"
    with res have e: "p = ?v" "hm' = hm1\<lparr>table := (table hm1)[?i := ?nd # table hm1 ! ?i]\<rparr>"
      "m' = m2" by simp_all
    have cells2: "cells m2 = (cells m1)(?k \<mapsto> ?kc, ?v \<mapsto> ?vc)" using s by blast
    have next2: "next_addr m2 = Suc (Suc (next_addr m1))" using s by blast
    have ldk: "load m2 ?k = ?kc" unfolding load_def cells2 by simp
    have l1: "load m1 = load m" using c1 by (simp add: load_def fun_eq_iff)
    have kd1: "load m1 key \<in> D" using kd l1 by simp
    have cd: "?kc \<in> D" and cp: "key_eq hm1 (load m1 key) ?kc"
      using kc1 kd1 by (rule key_eq_copy)+
    have "fn_hash hm1 (load m1 key) (key_size hm1) = fn_hash hm1 ?kc (key_size hm1)"
      using kc1 kd1 cd cp by (rule key_eq_hash)
    then have idx: "?i = bucket_index hm1 m2 (capacity hm1) ?k"
      unfolding bucket_index_def ldk by simp
    have nomatch: "\<forall>n \<in> set (nodes hm1).
        \<not> key_eq hm1 ?kc (load m1 (node_key n)) \<and> \<not> key_eq hm1 (load m1 (node_key n)) ?kc"
    proof
      fix n assume "n \<in> set (nodes hm1)"
      then have n1: "n \<in> set (nodes hm1)" .
      then have n: "n \<in> set (nodes hm)" using ms1 mset_eq_setD by blast
      have nd: "load m1 (node_key n) \<in> D" using sd1 n1 by (rule stored_inD)
      have nm: "\<not> key_eq hm1 (load m1 key) (load m1 (node_key n))"
        using get_absent_no_match [OF kc inv sd kd absent n] unfolding matches_def ke1 l1 .
      have a: "\<not> key_eq hm1 ?kc (load m1 (node_key n))"
        using nm cp key_eq_trans [OF kc1 kd1 cd nd] by blast
      then have "\<not> key_eq hm1 (load m1 (node_key n)) ?kc"
        using key_eq_sym [OF kc1 nd cd] by blast
      with a show "\<not> key_eq hm1 ?kc (load m1 (node_key n)) \<and>
          \<not> key_eq hm1 (load m1 (node_key n)) ?kc" by blast
    qed
    have "hm_inv (hm1\<lparr>table := (table hm1)[?i := ?nd # table hm1 ! ?i]\<rparr>) m2"
      using inv1 cells2 next2 idx nomatch by (rule hm_inv_insert)
    then have "hm_inv hm' m'" using e by simp
    moreover have "stored_in hm' m' D"
      unfolding stored_in_def
    proof
      fix n assume "n \<in> set (nodes hm')"
      then have "n \<in> set (concat ((table hm1)[?i := ?nd # table hm1 ! ?i]))"
        unfolding e by simp
      moreover have "?i < length (table hm1)"
        using inv1 unfolding hm_inv_def by (blast intro: index_in_range)
      then have "mset (concat ((table hm1)[?i := ?nd # table hm1 ! ?i])) =
          add_mset ?nd (mset (nodes hm1))"
        unfolding nodes_def by (rule mset_concat_prepend)
      then have "set (concat ((table hm1)[?i := ?nd # table hm1 ! ?i])) =
          insert ?nd (set (nodes hm1))"
        by (metis mset_eq_setD set_mset_add_mset_insert set_mset_mset)
      ultimately have c: "n = ?nd \<or> n \<in> set (nodes hm1)" by blast
      show "load m' (node_key n) \<in> D"
      proof (cases "n = ?nd")
        case True
        then show ?thesis unfolding e using ldk cd by simp
      next
        case False
        with c have n1: "n \<in> set (nodes hm1)" by blast
        then have "node_key n < ?k" using node_addrs_live [OF inv1] by blast
        then have "load m2 (node_key n) = load m1 (node_key n)"
          unfolding load_def cells2 by simp
        then show ?thesis unfolding e using stored_inD [OF sd1 n1] by simp
      qed
    qed
    moreover have "same_config hm hm'"
      unfolding e using sc1 by (rule same_config_update)
    moreover have "p \<noteq> 0" "p = Suc (next_addr m)" using e n1 by simp_all
    moreover have "count hm' = count hm + 1" unfolding e using cnt1 by simp
    moreover have "mset (nodes hm') =
        add_mset \<lparr>node_key = next_addr m, node_value = p\<rparr> (mset (nodes hm))"
    proof -
      have "?i < length (table hm1)"
        using inv1 unfolding hm_inv_def by (blast intro: index_in_range)
      then have "mset (concat ((table hm1)[?i := ?nd # table hm1 ! ?i])) =
          add_mset ?nd (mset (concat (table hm1)))" by (rule mset_concat_prepend)
      then show ?thesis unfolding e using ms1 n1 by (simp add: nodes_def)
    qed
    moreover have "cells m' = (cells m)
        (next_addr m \<mapsto> take (unat (key_size hm)) (load m key),
         p \<mapsto> take (unat (value_size hm)) (load m val))"
      unfolding e cells2 c1 n1 l1 ks1 vs1 ..
    moreover have "next_addr m' = Suc (Suc (next_addr m))" using e next2 n1 by simp
    ultimately show ?thesis by simp
  qed
qed

section \<open>Removal\<close>

lemma hashmap_add_present:
  "hashmap_get hm m key \<noteq> 0 \<Longrightarrow>
   hashmap_add hm m key val = (hashmap_get hm m key, hm, m)"
  by (simp add: hashmap_add_def Let_def)

lemma remove_loop_none:
  "remove_loop hm m key chain = None \<longleftrightarrow> (\<forall>n \<in> set chain. \<not> matches hm m key n)"
  by (induction chain) (auto simp: matches_def key_eq_def split: option.splits)

lemma remove_loop_some:
  "remove_loop hm m key chain = Some (n, chain') \<Longrightarrow>
   matches hm m key n \<and> mset chain = add_mset n (mset chain')"
proof (induction chain arbitrary: chain')
  case Nil
  then show ?case by simp
next
  case (Cons c chain)
  show ?case
  proof (cases "matches hm m key c")
    case True
    with Cons.prems show ?thesis by (simp add: matches_def key_eq_def)
  next
    case False
    with Cons.prems obtain rest where
      r: "remove_loop hm m key chain = Some (n, rest)" and c': "chain' = c # rest"
      by (auto simp: matches_def key_eq_def split: option.splits)
    from Cons.IH [OF r] c' show ?thesis by simp
  qed
qed

lemma mset_concat_replace:
  "i < length t \<Longrightarrow> mset (t ! i) = add_mset x (mset c) \<Longrightarrow>
   mset (concat t) = add_mset x (mset (concat (t[i := c])))"
proof (induction t arbitrary: i)
  case Nil
  then show ?case by simp
next
  case (Cons b t)
  show ?case
  proof (cases i)
    case 0
    with Cons.prems show ?thesis by simp
  next
    case (Suc j)
    with Cons.prems have "j < length t" "mset (t ! j) = add_mset x (mset c)" by simp_all
    then have "mset (concat t) = add_mset x (mset (concat (t[j := c])))" by (rule Cons.IH)
    with Suc show ?thesis by simp
  qed
qed

lemma placed_replace:
  assumes "placed hm m cap t" "i < length t" "set c \<subseteq> set (t ! i)"
  shows "placed hm m cap (t[i := c])"
  unfolding placed_def
proof (intro allI impI ballI)
  fix j n
  assume j: "j < length (t[i := c])" and n: "n \<in> set (t[i := c] ! j)"
  from j have jl: "j < length t" by simp
  have "n \<in> set (t ! j)"
  proof (cases "j = i")
    case True
    with n assms(2,3) show ?thesis by auto
  next
    case False
    with n show ?thesis by simp
  qed
  with assms(1) jl show "bucket_index hm m cap (node_key n) = j"
    unfolding placed_def by blast
qed


lemma distinct_addrs_Cons:
  assumes "distinct (map f (n # xs) @ map g (n # xs))"
  shows "distinct (map f xs @ map g xs)"
    and "\<And>x. x \<in> set xs \<Longrightarrow> f x \<noteq> f n \<and> f x \<noteq> g n \<and> g x \<noteq> f n \<and> g x \<noteq> g n"
proof -
  from assms show "distinct (map f xs @ map g xs)" by simp
  fix x assume "x \<in> set xs"
  then have "f x \<in> f ` set xs" "g x \<in> g ` set xs" by blast+
  moreover from assms have "f n \<notin> f ` set xs" "f n \<notin> g ` set xs"
    "g n \<notin> f ` set xs" "g n \<notin> g ` set xs" by auto
  ultimately show "f x \<noteq> f n \<and> f x \<noteq> g n \<and> g x \<noteq> f n \<and> g x \<noteq> g n"
    by metis
qed

lemma hm_inv_delete:
  assumes inv: "hm_inv hm m"
      and i: "i < length (table hm)"
      and ms: "mset (table hm ! i) = add_mset n (mset c)"
      and cells': "cells m' = (cells m)(node_key n := None, node_value n := None)"
      and next': "next_addr m' = next_addr m"
  shows "hm_inv (hm\<lparr>table := (table hm)[i := c]\<rparr>) m'" (is "hm_inv ?hm' m'")
    and "mset (nodes hm) = add_mset n (mset (concat ((table hm)[i := c])))"
proof -
  let ?T = "(table hm)[i := c]"
  from inv have b: "buckets_ok hm m" and sp: "separated hm m" and u: "keys_unique hm m"
    unfolding hm_inv_def by blast+
  from b have len: "length (table hm) = unat (capacity hm)"
    and cap: "HASHMAP_MINIMAL_CAPACITY \<le> capacity hm"
    and pl: "placed hm m (capacity hm) (table hm)"
    unfolding buckets_ok_placed by blast+
  show msn: "mset (nodes hm) = add_mset n (mset (concat ?T))"
    unfolding nodes_def using i ms by (rule mset_concat_replace)
  then have msn': "mset (nodes hm) = mset (n # concat ?T)" by simp
  have sub: "set (concat ?T) \<subseteq> set (nodes hm)"
    using mset_eq_setD [OF msn'] by auto
  from sp have d: "distinct (map node_key (nodes hm) @ map node_value (nodes hm))"
    and dm: "\<forall>n \<in> set (nodes hm). node_key n \<in> dom (cells m) \<and> node_value n \<in> dom (cells m)"
    and w: "\<forall>a \<in> dom (cells m). 0 < a \<and> a < next_addr m"
    and nz: "0 < next_addr m"
    unfolding separated_def by blast+
  have "distinct (map node_key (nodes hm) @ map node_value (nodes hm)) \<longleftrightarrow>
        distinct (map node_key (n # concat ?T) @ map node_value (n # concat ?T))"
    using msn' by (rule distinct_addrs_mset)
  with d have d': "distinct (map node_key (n # concat ?T) @ map node_value (n # concat ?T))"
    by blast
  have other: "\<And>x. x \<in> set (concat ?T) \<Longrightarrow>
      node_key x \<noteq> node_key n \<and> node_key x \<noteq> node_value n \<and>
      node_value x \<noteq> node_key n \<and> node_value x \<noteq> node_value n"
    using d' by (rule distinct_addrs_Cons(2))
  have ld: "\<And>x. x \<in> set (concat ?T) \<Longrightarrow> load m' (node_key x) = load m (node_key x)"
    using other unfolding load_def cells' by simp
  have "buckets_ok ?hm' m'"
  proof -
    have "set_mset (mset (table hm ! i)) = insert n (set_mset (mset c))"
      unfolding ms by simp
    then have "set c \<subseteq> set (table hm ! i)" by auto
    with pl i have "placed hm m (capacity hm) ?T" by (rule placed_replace)
    moreover have "\<forall>x \<in> set (concat ?T). load m' (node_key x) = load m (node_key x)"
      using ld by blast
    ultimately have "placed hm m' (capacity hm) ?T" by (rule placed_cong)
    with len cap show ?thesis by (simp add: buckets_ok_placed)
  qed
  moreover have "separated ?hm' m'"
  proof -
    have "distinct (map node_key (concat ?T) @ map node_value (concat ?T))"
      using d' by (rule distinct_addrs_Cons(1))
    moreover have "\<forall>x \<in> set (concat ?T).
        node_key x \<in> dom (cells m') \<and> node_value x \<in> dom (cells m')"
    proof
      fix x assume x: "x \<in> set (concat ?T)"
      with sub dm have "node_key x \<in> dom (cells m) \<and> node_value x \<in> dom (cells m)"
        by blast
      with other [OF x] show "node_key x \<in> dom (cells m') \<and> node_value x \<in> dom (cells m')"
        unfolding cells' by simp
    qed
    moreover have "0 < next_addr m'" using nz next' by simp
    moreover have "\<forall>a \<in> dom (cells m'). 0 < a \<and> a < next_addr m'"
    proof
      fix a assume "a \<in> dom (cells m')"
      then have "a \<in> dom (cells m)" unfolding cells' by (simp add: dom_def split: if_splits)
      with w show "0 < a \<and> a < next_addr m'" unfolding next' by blast
    qed
    ultimately show ?thesis unfolding separated_def by simp
  qed
  moreover have "keys_unique ?hm' m'"
    unfolding keys_unique_def
  proof (intro ballI impI)
    fix n1 n2
    assume n1: "n1 \<in> set (nodes ?hm')" and n2: "n2 \<in> set (nodes ?hm')"
      and e: "key_eq ?hm' (load m' (node_key n1)) (load m' (node_key n2))"
    have nd: "nodes ?hm' = concat ?T" by simp
    from n1 n2 have i1: "n1 \<in> set (concat ?T)" and i2: "n2 \<in> set (concat ?T)"
      unfolding nd by blast+
    from e have "key_eq hm (load m (node_key n1)) (load m (node_key n2))"
      unfolding ld [OF i1] ld [OF i2] by simp
    moreover from i1 i2 sub have "n1 \<in> set (nodes hm)" "n2 \<in> set (nodes hm)" by blast+
    ultimately show "n1 = n2" using u unfolding keys_unique_def by blast
  qed
  ultimately show "hm_inv ?hm' m'" unfolding hm_inv_def by blast
qed


lemma node_destroy_cells:
  assumes "default_ownership hm"
  shows "cells (node_destroy hm m n) = (cells m)(node_key n := None, node_value n := None)"
    and "next_addr (node_destroy hm m n) = next_addr m"
  using assms
  by (simp_all add: node_destroy_def default_ownership_def default_fn_destroy_def free_def)

lemma hashmap_remove_cases:
  assumes ok: "strategies_ok hm D" and inv: "hm_inv hm m"
      and sd: "stored_in hm m D" and kd: "load m key \<in> D"
      and rm: "hashmap_remove hm m key = (b, hm', m')"
  shows "hm_inv hm' m' \<and> stored_in hm' m' D \<and> same_config hm hm' \<and>
         (\<not> b \<longrightarrow> hm' = hm \<and> m' = m \<and> (\<forall>n \<in> set (nodes hm). \<not> matches hm m key n)) \<and>
         (b \<longrightarrow> (\<exists>n \<in> set (nodes hm). matches hm m key n \<and>
                    mset (nodes hm) = add_mset n (mset (nodes hm')) \<and>
                    cells m' = (cells m)(node_key n := None, node_value n := None)) \<and>
                count hm' = count hm - 1 \<and> next_addr m' = next_addr m)"
proof -
  let ?i = "bucket_index hm m (capacity hm) key"
  from inv have bk: "buckets_ok hm m" unfolding hm_inv_def by blast
  then have ilt: "?i < length (table hm)" by (rule index_in_range)
  show ?thesis
  proof (cases "remove_loop hm m key (table hm ! ?i)")
    case None
    with rm have e: "b = False" "hm' = hm" "m' = m"
      by (simp_all add: hashmap_remove_def Let_def)
    have "\<forall>n \<in> set (nodes hm). \<not> matches hm m key n"
    proof (intro ballI notI)
      fix n assume n: "n \<in> set (nodes hm)" and mt: "matches hm m key n"
      have "bucket_index hm m (capacity hm) (node_key n) = ?i"
        using strategies_ok_coherent [OF ok] mt kd stored_inD [OF sd n] by (rule matches_same_bucket)
      with node_bucket [OF bk n] have "n \<in> set (table hm ! ?i)" by simp
      with None mt show False unfolding remove_loop_none by blast
    qed
    with e inv sd show ?thesis by simp
  next
    case (Some found)
    obtain n c where f: "found = (n, c)" by (cases found)
    with Some have rl: "remove_loop hm m key (table hm ! ?i) = Some (n, c)" by simp
    from remove_loop_some [OF rl]
    have mt: "matches hm m key n" and ms: "mset (table hm ! ?i) = add_mset n (mset c)"
      by blast+
    let ?hm1 = "hm\<lparr>table := (table hm)[?i := c]\<rparr>"
    let ?m1 = "node_destroy ?hm1 m n"
    let ?hm2 = "?hm1\<lparr>count := count ?hm1 - 1\<rparr>"
    obtain hm3 m3 where sh: "auto_shrink ?hm2 ?m1 = (hm3, m3)"
      by (cases "auto_shrink ?hm2 ?m1")
    with rm rl have e: "b = True" "hm' = hm3" "m' = m3"
      by (simp_all add: hashmap_remove_def Let_def)
    have own: "default_ownership ?hm1"
      using strategies_ok_ownership [OF ok] by simp
    note dc = node_destroy_cells [OF own, of m n]
    note del = hm_inv_delete [OF inv ilt ms dc]
    have inv2: "hm_inv ?hm2 ?m1" using del(1) by simp
    note s = auto_shrink_inv [OF inv2 sh]
    have "n \<in> set (table hm ! ?i)"
      using ms by (metis mset_eq_setD list.set_intros(1) mset.simps(2))
    with ilt have nin: "n \<in> set (nodes hm)" by (rule chain_subset_nodes)
    have msn: "mset (nodes hm) = add_mset n (mset (nodes hm3))"
      using del(2) s(2) by simp
    have "stored_in hm3 m3 D"
    proof (rule stored_in_cong [OF sd])
      have msn': "mset (nodes hm) = mset (n # nodes hm3)" using msn by simp
      show sub: "set (nodes hm3) \<subseteq> set (nodes hm)"
        using mset_eq_setD [OF msn'] by auto
      from msn' have "distinct (map node_key (nodes hm) @ map node_value (nodes hm)) \<longleftrightarrow>
          distinct (map node_key (n # nodes hm3) @ map node_value (n # nodes hm3))"
        by (rule distinct_addrs_mset)
      moreover have "distinct (map node_key (nodes hm) @ map node_value (nodes hm))"
        using inv unfolding hm_inv_def separated_def by blast
      ultimately have d: "distinct (map node_key (n # nodes hm3) @ map node_value (n # nodes hm3))"
        by blast
      show "\<forall>x \<in> set (nodes hm3). load m3 (node_key x) = load m (node_key x)"
      proof
        fix x assume "x \<in> set (nodes hm3)"
        with distinct_addrs_Cons(2) [OF d]
        have "node_key x \<noteq> node_key n \<and> node_key x \<noteq> node_value n" by blast
        then show "load m3 (node_key x) = load m (node_key x)"
          unfolding load_def s(3) dc(1) by simp
      qed
    qed
    moreover note msn
    moreover have "cells m3 = (cells m)(node_key n := None, node_value n := None)"
      using s(3) dc(1) by simp
    moreover have "next_addr m3 = next_addr m" using s(4) dc(2) by simp
    moreover have "count hm3 = count hm - 1" using s(6) by simp
    moreover have "same_config hm hm3"
    proof -
      have "same_config hm ?hm1" by (rule same_config_update) simp
      then have "same_config hm ?hm2" by (rule same_config_update)
      then show ?thesis using s(5) by (rule same_config_trans)
    qed
    ultimately show ?thesis using e s(1) mt nin by blast
  qed
qed

section \<open>Changes of memory outside the table\<close>

lemma hm_inv_frame:
  assumes inv: "hm_inv hm m"
      and same: "\<forall>a \<in> owned hm. cells m' a = cells m a"
      and nz: "0 < next_addr m'"
      and wf: "\<forall>a \<in> dom (cells m'). 0 < a \<and> a < next_addr m'"
  shows "hm_inv hm m'"
proof -
  from inv have b: "buckets_ok hm m" and sp: "separated hm m" and u: "keys_unique hm m"
    unfolding hm_inv_def by blast+
  have ld: "\<And>n. n \<in> set (nodes hm) \<Longrightarrow> load m' (node_key n) = load m (node_key n)"
    using same unfolding owned_def load_def by simp
  have "buckets_ok hm m'"
  proof -
    have "placed hm m (capacity hm) (table hm)" using b unfolding buckets_ok_placed by blast
    moreover have "\<forall>n \<in> set (concat (table hm)). load m' (node_key n) = load m (node_key n)"
      using ld unfolding nodes_def by blast
    ultimately have "placed hm m' (capacity hm) (table hm)" by (rule placed_cong)
    with b show ?thesis unfolding buckets_ok_placed by blast
  qed
  moreover have "separated hm m'"
  proof -
    from sp have d: "distinct (map node_key (nodes hm) @ map node_value (nodes hm))"
      and dm: "\<forall>n \<in> set (nodes hm). node_key n \<in> dom (cells m) \<and> node_value n \<in> dom (cells m)"
      unfolding separated_def by blast+
    have "\<forall>n \<in> set (nodes hm). node_key n \<in> dom (cells m') \<and> node_value n \<in> dom (cells m')"
    proof
      fix n assume n: "n \<in> set (nodes hm)"
      then have "node_key n \<in> owned hm" "node_value n \<in> owned hm"
        unfolding owned_def by blast+
      with same have "cells m' (node_key n) = cells m (node_key n)"
        "cells m' (node_value n) = cells m (node_value n)" by blast+
      with dm n show "node_key n \<in> dom (cells m') \<and> node_value n \<in> dom (cells m')"
        by (simp add: dom_def)
    qed
    with d nz wf show ?thesis unfolding separated_def by blast
  qed
  moreover have "keys_unique hm m'"
    using u ld unfolding keys_unique_def by simp
  ultimately show ?thesis unfolding hm_inv_def by blast
qed

lemma stored_in_frame:
  assumes "stored_in hm m D" "\<forall>a \<in> owned hm. cells m' a = cells m a"
  shows "stored_in hm m' D"
proof (rule stored_in_cong [OF assms(1)])
  show "set (nodes hm) \<subseteq> set (nodes hm)" by simp
  show "\<forall>n \<in> set (nodes hm). load m' (node_key n) = load m (node_key n)"
    using assms(2) unfolding owned_def load_def by simp
qed


section \<open>The steps of an insertion\<close>

lemma node_create_succeeds:
  assumes own: "default_ownership hm" and nz: "0 < next_addr m"
      and al: "alloc_ok m = True # True # True # rest \<or> alloc_ok m = []"
  shows "fst (node_create hm m key val) =
           Some \<lparr>node_key = next_addr m, node_value = Suc (next_addr m)\<rparr>"
    and "alloc_ok (snd (node_create hm m key val)) = (if alloc_ok m = [] then [] else rest)"
proof -
  from own have ck: "fn_alloc_copy_key hm = default_fn_alloc_copy"
    and cv: "fn_alloc_copy_value hm = default_fn_alloc_copy"
    by (simp_all add: default_ownership_def)
  from al show "fst (node_create hm m key val) =
           Some \<lparr>node_key = next_addr m, node_value = Suc (next_addr m)\<rparr>"
  proof
    assume "alloc_ok m = True # True # True # rest"
    with nz show ?thesis
      by (simp add: node_create_def alloc_attempt_def ck cv default_fn_alloc_copy_def
          malloc_def memcpy_def)
  next
    assume "alloc_ok m = []"
    with nz show ?thesis
      by (simp add: node_create_def alloc_attempt_def ck cv default_fn_alloc_copy_def
          malloc_def memcpy_def)
  qed
  from al show "alloc_ok (snd (node_create hm m key val)) =
      (if alloc_ok m = [] then [] else rest)"
  proof
    assume "alloc_ok m = True # True # True # rest"
    with nz show ?thesis
      by (simp add: node_create_def alloc_attempt_def ck cv default_fn_alloc_copy_def
          malloc_def memcpy_def)
  next
    assume "alloc_ok m = []"
    with nz show ?thesis
      by (simp add: node_create_def alloc_attempt_def ck cv default_fn_alloc_copy_def
          malloc_def memcpy_def)
  qed
qed

lemma hashmap_add_steps:
  assumes absent: "hashmap_get hm m key = 0"
      and ag: "auto_grow (hm\<lparr>count := count hm + 1\<rparr>) m = (hm1, m1)"
      and nc: "node_create hm1 m1 key val = (r, m2)"
  shows "hashmap_add hm m key val =
     (case r of
        None \<Rightarrow> (0, hm1\<lparr>count := count hm1 - 1\<rparr>, m2)
      | Some node \<Rightarrow>
          (node_value node,
           hm1\<lparr>table := (table hm1)
              [bucket_index hm1 m1 (capacity hm1) key :=
                 node # table hm1 ! bucket_index hm1 m1 (capacity hm1) key]\<rparr>,
           m2))"
  using assms by (simp add: hashmap_add_def Let_def split: option.splits)

lemma auto_grow_capacity:
  assumes inv: "hm_inv hm m" and ag: "auto_grow hm m = (hm', m')"
  shows "capacity hm' = capacity hm \<or>
         capacity hm' = clamp_capacity (get_auto_growth_new_capacity hm)"
    and "\<not> load_balance (count hm) (capacity hm) > load_balance_threshold_max hm \<Longrightarrow> hm' = hm"
proof -
  show "capacity hm' = capacity hm \<or>
         capacity hm' = clamp_capacity (get_auto_growth_new_capacity hm)"
  proof (cases "load_balance (count hm) (capacity hm) > load_balance_threshold_max hm")
    case True
    with ag have "resize hm m (get_auto_growth_new_capacity hm) = (hm', m')"
      by (simp add: auto_grow_def)
    from resize_inv(7) [OF inv this] show ?thesis .
  next
    case False
    with ag show ?thesis by (simp add: auto_grow_def)
  qed
  show "\<not> load_balance (count hm) (capacity hm) > load_balance_threshold_max hm \<Longrightarrow> hm' = hm"
    using ag by (simp add: auto_grow_def)
qed

lemma hashmap_get_after_add:
  assumes ok: "strategies_ok hm D" and inv: "hm_inv hm m" and sd: "stored_in hm m D"
      and kd: "load m key \<in> D"
      and kl: "key \<in> dom (cells m)" and vl: "val \<in> dom (cells m)"
      and absent: "hashmap_get hm m key = 0"
      and add: "hashmap_add hm m key val = (p, hm', m')" and success: "p \<noteq> 0"
  shows "hashmap_get hm' m' key = p"
proof -
  let ?k = "next_addr m"
  let ?kc = "take (unat (key_size hm)) (load m key)"
  let ?vc = "take (unat (value_size hm)) (load m val)"
  let ?nd = "\<lparr>node_key = ?k, node_value = p\<rparr>"
  note r = hashmap_add_absent [OF ok inv sd kd kl vl absent add]
  from r have inv': "hm_inv hm' m'" and sd': "stored_in hm' m' D"
    and sc: "same_config hm hm'" by blast+
  from r success have p: "p = Suc ?k"
    and ms: "mset (nodes hm') = add_mset ?nd (mset (nodes hm))"
    and cells': "cells m' = (cells m)(?k \<mapsto> ?kc, p \<mapsto> ?vc)" by blast+
  have klt: "key < ?k" using mem_wf(3) [OF inv] kl by blast
  have ok': "strategies_ok hm' D" using same_config_fields(10) [OF sc] ok by simp
  have kc: "keys_coherent hm D" using ok by (rule strategies_ok_coherent)
  have kc': "keys_coherent hm' D" using ok' by (rule strategies_ok_coherent)
  have ke: "key_eq hm' = key_eq hm" using sc by (rule same_config_fields)
  have n: "?nd \<in> set (nodes hm')"
    using ms by (metis mset_eq_setD list.set_intros(1) mset.simps(2))
  have ldk: "load m' ?k = ?kc" unfolding load_def cells' using p by simp
  have lk: "load m' key = load m key" unfolding load_def cells' using klt p by simp
  have "key_eq hm (load m key) ?kc" using kc kd by (rule key_eq_copy)
  then have mt: "matches hm' m' key ?nd"
    unfolding matches_def ke by (simp add: lk ldk)
  have kd': "load m' key \<in> D" using kd lk by simp
  have "hashmap_get hm' m' key = node_value ?nd"
    using kc' inv' sd' kd' n mt by (rule hashmap_get_present)
  then show ?thesis by simp
qed

section \<open>Capacities\<close>

lemma unat_clamp_capacity: "unat (clamp_capacity c) = max 2 (unat c)"
  by (auto simp: clamp_capacity_def HASHMAP_MINIMAL_CAPACITY_def word_less_nat_alt max_def)

lemma unat_growth:
  "unat (capacity hm) + unat (capacity hm) div 2 < 2 ^ 64 \<Longrightarrow>
   unat (get_auto_growth_new_capacity hm) = unat (capacity hm) + unat (capacity hm) div 2"
  by (simp add: get_auto_growth_new_capacity_def unat_word_ariths drop_bit_eq_div unat_div)

lemma unat_shrink:
  "unat (get_auto_shrink_new_capacity hm) = unat (capacity hm) div 2"
  by (simp add: get_auto_shrink_new_capacity_def drop_bit_eq_div unat_div)

lemma resize_capacity:
  "alloc_ok m = [] \<Longrightarrow> capacity (fst (resize hm m c)) = clamp_capacity c"
  by (simp add: resize_def alloc_attempt_def Let_def clamp_capacity_def)

lemma resize_alloc_ok:
  "alloc_ok m = [] \<Longrightarrow> alloc_ok (snd (resize hm m c)) = []"
  by (simp add: resize_def alloc_attempt_def Let_def)

lemma hashmap_add_capacity:
  assumes "hashmap_get hm m key = 0"
  shows "capacity (fst (snd (hashmap_add hm m key val))) =
         capacity (fst (auto_grow (hm\<lparr>count := count hm + 1\<rparr>) m))"
proof -
  obtain hm1 m1 where ag: "auto_grow (hm\<lparr>count := count hm + 1\<rparr>) m = (hm1, m1)"
    by (cases "auto_grow (hm\<lparr>count := count hm + 1\<rparr>) m")
  obtain r m2 where nc: "node_create hm1 m1 key val = (r, m2)"
    by (cases "node_create hm1 m1 key val")
  show ?thesis
    using hashmap_add_steps [OF assms ag nc] ag by (cases r) simp_all
qed

lemma hashmap_remove_capacity:
  assumes g: "hashmap_get hm m key \<noteq> 0"
  shows "\<exists>n chain'. remove_loop hm m key (table hm ! bucket_index hm m (capacity hm) key) =
           Some (n, chain') \<and>
         hashmap_remove hm m key =
           (True,
            auto_shrink
              (hm\<lparr>table := (table hm)[bucket_index hm m (capacity hm) key := chain'],
                  count := count hm - 1\<rparr>)
              (node_destroy
                 (hm\<lparr>table := (table hm)[bucket_index hm m (capacity hm) key := chain']\<rparr>)
                 m n))"
proof -
  let ?i = "bucket_index hm m (capacity hm) key"
  from g have "get_loop hm m key (table hm ! ?i) \<noteq> 0"
    by (simp add: hashmap_get_def Let_def)
  then have "\<exists>n \<in> set (table hm ! ?i). matches hm m key n"
    using get_loop_found by blast
  then have "remove_loop hm m key (table hm ! ?i) \<noteq> None"
    unfolding remove_loop_none by blast
  then obtain n c' where rl: "remove_loop hm m key (table hm ! ?i) = Some (n, c')"
    by (cases "remove_loop hm m key (table hm ! ?i)") auto
  then show ?thesis
    by (simp add: hashmap_remove_def Let_def split: prod.splits)
qed

section \<open>Steps that need no invariant\<close>

lemma node_create_update [simp]:
  "node_create (hm\<lparr>table := T\<rparr>) = node_create hm"
  "node_create (hm\<lparr>capacity := c\<rparr>) = node_create hm"
  "node_create (hm\<lparr>count := k\<rparr>) = node_create hm"
  by (simp_all add: node_create_def fun_eq_iff split: prod.splits bool.splits)

lemma node_destroy_update [simp]:
  "node_destroy (hm\<lparr>table := T\<rparr>) = node_destroy hm"
  "node_destroy (hm\<lparr>capacity := c\<rparr>) = node_destroy hm"
  "node_destroy (hm\<lparr>count := k\<rparr>) = node_destroy hm"
  by (simp_all add: node_destroy_def fun_eq_iff)

lemma node_create_Some:
  assumes "node_create hm m key val = (Some node, m')"
  shows "node_key node \<noteq> 0" and "node_value node \<noteq> 0"
proof -
  obtain ok m1 where al: "alloc_attempt m = (ok, m1)" by (cases "alloc_attempt m")
  obtain k m2 where ck: "fn_alloc_copy_key hm m1 key (key_size hm) = (k, m2)"
    by (cases "fn_alloc_copy_key hm m1 key (key_size hm)")
  obtain v m3 where cv: "fn_alloc_copy_value hm m2 val (value_size hm) = (v, m3)"
    by (cases "fn_alloc_copy_value hm m2 val (value_size hm)")
  from assms al ck cv have "ok \<and> k \<noteq> 0 \<and> v \<noteq> 0 \<and> node = \<lparr>node_key = k, node_value = v\<rparr>"
    by (cases ok; cases "k = 0"; cases "v = 0") (simp_all add: node_create_def)
  then show "node_key node \<noteq> 0" and "node_value node \<noteq> 0" by simp_all
qed

lemma hashmap_add_null:
  assumes add: "hashmap_add hm m key val = (0, hm', m')"
  shows "hashmap_get hm m key = 0"
    and "\<exists>hm1 m1. auto_grow (hm\<lparr>count := count hm + 1\<rparr>) m = (hm1, m1) \<and>
           node_create hm1 m1 key val = (None, m') \<and> hm' = hm1\<lparr>count := count hm1 - 1\<rparr>"
proof -
  show absent: "hashmap_get hm m key = 0"
  proof (rule ccontr)
    assume "hashmap_get hm m key \<noteq> 0"
    then have "hashmap_add hm m key val = (hashmap_get hm m key, hm, m)"
      by (rule hashmap_add_present)
    with add \<open>hashmap_get hm m key \<noteq> 0\<close> show False by simp
  qed
  obtain hm1 m1 where ag: "auto_grow (hm\<lparr>count := count hm + 1\<rparr>) m = (hm1, m1)"
    by (cases "auto_grow (hm\<lparr>count := count hm + 1\<rparr>) m")
  obtain r m2 where nc: "node_create hm1 m1 key val = (r, m2)"
    by (cases "node_create hm1 m1 key val")
  note st = hashmap_add_steps [OF absent ag nc]
  have "r = None"
  proof (cases r)
    case None
    then show ?thesis .
  next
    case (Some node)
    with nc have "node_value node \<noteq> 0" using node_create_Some(2) by blast
    moreover from st Some add have "node_value node = 0" by simp
    ultimately show ?thesis by simp
  qed
  with st add have "hm' = hm1\<lparr>count := count hm1 - 1\<rparr>" "m2 = m'" by simp_all
  with ag nc \<open>r = None\<close>
  show "\<exists>hm1 m1. auto_grow (hm\<lparr>count := count hm + 1\<rparr>) m = (hm1, m1) \<and>
           node_create hm1 m1 key val = (None, m') \<and> hm' = hm1\<lparr>count := count hm1 - 1\<rparr>"
    by blast
qed

lemma resize_structure:
  assumes len: "length (table hm) = unat (capacity hm)"
      and rs: "resize hm m c = (hm', m')"
  shows "count hm' = count hm \<and> mset (nodes hm') = mset (nodes hm) \<and>
         cells m' = cells m \<and>
         (if fst (alloc_attempt m) then capacity hm' = clamp_capacity c else hm' = hm)"
proof -
  obtain ok m1 where al: "alloc_attempt m = (ok, m1)" by (cases "alloc_attempt m")
  have c: "cells m1 = cells m" using alloc_attempt_cells [OF al] by blast
  show ?thesis
  proof (cases ok)
    case False
    with al have "alloc_attempt m = (False, m1)" by simp
    then have "resize hm m c = (hm, m1)" by (rule resize_failure)
    with rs have "hm' = hm" "m' = m1" by simp_all
    with al c False show ?thesis by simp
  next
    case True
    with al have al': "alloc_attempt m = (True, m1)" by simp
    from resize_success [OF len al', of c] obtain T where
      T: "resize hm m c = (hm\<lparr>table := T, capacity := clamp_capacity c\<rparr>, m1)"
         "mset (concat T) = mset (nodes hm)" by blast
    from T(1) rs have e: "hm' = hm\<lparr>table := T, capacity := clamp_capacity c\<rparr>" "m' = m1"
      by simp_all
    have "nodes hm' = concat T" unfolding e nodes_def by simp
    with T(2) have "mset (nodes hm') = mset (nodes hm)" by simp
    moreover have "count hm' = count hm" "capacity hm' = clamp_capacity c"
      unfolding e by simp_all
    ultimately show ?thesis using al' c e(2) by simp
  qed
qed

lemma auto_grow_structure:
  assumes len: "length (table hm) = unat (capacity hm)"
      and ag: "auto_grow hm m = (hm', m')"
  shows "count hm' = count hm \<and> mset (nodes hm') = mset (nodes hm) \<and> cells m' = cells m \<and>
         (if load_balance (count hm) (capacity hm) > load_balance_threshold_max hm \<and>
             fst (alloc_attempt m)
          then capacity hm' = clamp_capacity (get_auto_growth_new_capacity hm)
          else hm' = hm)"
proof (cases "load_balance (count hm) (capacity hm) > load_balance_threshold_max hm")
  case True
  with ag have "resize hm m (get_auto_growth_new_capacity hm) = (hm', m')"
    by (simp add: auto_grow_def)
  from resize_structure [OF len this] True show ?thesis by simp
next
  case False
  with ag have "hm' = hm" "m' = m" by (simp_all add: auto_grow_def)
  with False show ?thesis by simp
qed

lemma hashmap_add_grow_capacity:
  assumes absent: "hashmap_get hm m key = 0"
  shows "capacity (fst (snd (hashmap_add hm m key val))) =
     (if load_balance (count hm + 1) (capacity hm) > load_balance_threshold_max hm \<and>
         fst (alloc_attempt m)
      then clamp_capacity (get_auto_growth_new_capacity hm) else capacity hm)"
proof -
  let ?hm0 = "hm\<lparr>count := count hm + 1\<rparr>"
  obtain ok m1 where al: "alloc_attempt m = (ok, m1)" by (cases "alloc_attempt m")
  have "capacity (fst (auto_grow ?hm0 m)) =
     (if load_balance (count hm + 1) (capacity hm) > load_balance_threshold_max hm \<and> ok
      then clamp_capacity (get_auto_growth_new_capacity hm) else capacity hm)"
    using al
    by (cases ok)
      (simp_all add: auto_grow_def resize_def Let_def clamp_capacity_def
         get_auto_growth_new_capacity_def)
  then show ?thesis unfolding hashmap_add_capacity [OF absent] using al by simp
qed

lemma hashmap_remove_shrink_capacity:
  assumes rl: "remove_loop hm m key (table hm ! bucket_index hm m (capacity hm) key) =
                 Some (n, chain')"
  shows "fst (hashmap_remove hm m key)"
    and "capacity (fst (snd (hashmap_remove hm m key))) =
     (if load_balance (count hm - 1) (capacity hm) < load_balance_threshold_min hm \<and>
         fst (alloc_attempt (node_destroy hm m n))
      then clamp_capacity (get_auto_shrink_new_capacity hm) else capacity hm)"
proof -
  let ?i = "bucket_index hm m (capacity hm) key"
  let ?hm2 = "hm\<lparr>table := (table hm)[?i := chain'], count := count hm - 1\<rparr>"
  let ?m1 = "node_destroy hm m n"
  have rm: "hashmap_remove hm m key = (True, auto_shrink ?hm2 ?m1)"
    using rl by (simp add: hashmap_remove_def Let_def split: prod.splits)
  then show "fst (hashmap_remove hm m key)" by simp
  obtain ok m2 where al: "alloc_attempt ?m1 = (ok, m2)" by (cases "alloc_attempt ?m1")
  have "capacity (fst (auto_shrink ?hm2 ?m1)) =
     (if load_balance (count hm - 1) (capacity hm) < load_balance_threshold_min hm \<and> ok
      then clamp_capacity (get_auto_shrink_new_capacity hm) else capacity hm)"
    using al
    by (cases ok)
      (simp_all add: auto_shrink_def resize_def Let_def clamp_capacity_def
         get_auto_shrink_new_capacity_def)
  then show "capacity (fst (snd (hashmap_remove hm m key))) =
     (if load_balance (count hm - 1) (capacity hm) < load_balance_threshold_min hm \<and>
         fst (alloc_attempt (node_destroy hm m n))
      then clamp_capacity (get_auto_shrink_new_capacity hm) else capacity hm)"
    unfolding rm using al by simp
qed

lemma unat_growth_mod:
  "unat (get_auto_growth_new_capacity hm) =
     (unat (capacity hm) + unat (capacity hm) div 2) mod 2 ^ 64"
  by (simp add: get_auto_growth_new_capacity_def unat_word_ariths drop_bit_eq_div unat_div
      mod_add_right_eq)

section \<open>The provided strategies, and a new table\<close>

lemma memcmp_eq_0_iff: "memcmp a b n = 0 \<longleftrightarrow> take n a = take n b"
  by (induction a b n rule: memcmp.induct) auto

lemma key_eq_default:
  "fn_compare hm = default_fn_compare \<Longrightarrow>
   key_eq hm a b \<longleftrightarrow> take (unat (key_size hm)) a = take (unat (key_size hm)) b"
  by (simp add: key_eq_def default_fn_compare_def memcmp_eq_0_iff)

lemma djb2_loop_take:
  "0 \<in> set (take n a) \<Longrightarrow> djb2_loop sg h (take n a) = djb2_loop sg h a"
proof (induction a arbitrary: n h)
  case Nil
  then show ?case by simp
next
  case (Cons x a)
  then obtain k where n: "n = Suc k" by (cases n) auto
  show ?case
  proof (cases "x = 0")
    case True
    with n show ?thesis by simp
  next
    case False
    with Cons.prems n have "0 \<in> set (take k a)" by simp
    then have "djb2_loop sg h' (take k a) = djb2_loop sg h' a" for h' by (rule Cons.IH)
    with n False show ?thesis by simp
  qed
qed

lemma djb2_loop_append:
  "0 \<in> set a \<Longrightarrow> djb2_loop sg h (a @ e) = djb2_loop sg h a"
  by (induction a arbitrary: h) auto

lemma memcmp_append:
  "n \<le> length a \<Longrightarrow> n \<le> length b \<Longrightarrow> memcmp (a @ e1) (b @ e2) n = memcmp a b n"
  by (induction a b n rule: memcmp.induct) auto

lemma keys_coherent_djb2:
  assumes pos: "0 < ksize"
  shows "keys_coherent (fresh_table cap (hashmap_fn_hash_djb2 sg) ksize vsize)
           (terminated_keys ksize)"
proof -
  let ?hm = "fresh_table cap (hashmap_fn_hash_djb2 sg) ksize vsize"
  have cmp: "fn_compare ?hm = default_fn_compare" and ks: "key_size ?hm = ksize"
    and h: "fn_hash ?hm = hashmap_fn_hash_djb2 sg"
    by (simp_all add: fresh_table_def)
  have ke: "\<And>a b. key_eq ?hm a b \<longleftrightarrow> take (unat ksize) a = take (unat ksize) b"
    using key_eq_default [OF cmp] unfolding ks .
  have hash: "\<And>a. a \<in> terminated_keys ksize \<Longrightarrow>
      fn_hash ?hm a ksize = djb2_loop sg 5381 (take (unat ksize) a)"
    unfolding h hashmap_fn_hash_djb2_def terminated_keys_def
    by (simp add: djb2_loop_take)
  show ?thesis
    unfolding keys_coherent_def ks
  proof (intro conjI ballI impI allI)
    fix a b assume "key_eq ?hm a b"
    then show "key_eq ?hm b a" unfolding ke by simp
  next
    fix a b c assume "key_eq ?hm a b" "key_eq ?hm b c"
    then show "key_eq ?hm a c" unfolding ke by simp
  next
    fix a b assume "a \<in> terminated_keys ksize" "b \<in> terminated_keys ksize" "key_eq ?hm a b"
    then show "fn_hash ?hm a ksize = fn_hash ?hm b ksize"
      unfolding ke by (simp add: hash)
  next
    fix a assume "a \<in> terminated_keys ksize"
    then show "take (unat ksize) a \<in> terminated_keys ksize"
      unfolding terminated_keys_def by simp
  next
    fix a show "key_eq ?hm a (take (unat ksize) a)" unfolding ke by simp
  next
    fix a assume "a \<in> terminated_keys ksize"
    then show "unat ksize \<le> length a" unfolding terminated_keys_def by simp
  next
    fix a e assume "a \<in> terminated_keys ksize"
    then have "0 \<in> set a" unfolding terminated_keys_def using in_set_takeD by fastforce
    then show "fn_hash ?hm (a @ e) ksize = fn_hash ?hm a ksize"
      unfolding h hashmap_fn_hash_djb2_def by (rule djb2_loop_append)
  next
    fix a b e1 e2 assume "a \<in> terminated_keys ksize" "b \<in> terminated_keys ksize"
    then have "unat ksize \<le> length a" "unat ksize \<le> length b"
      unfolding terminated_keys_def by simp_all
    then show "fn_compare ?hm (a @ e1) (b @ e2) ksize = fn_compare ?hm a b ksize"
      unfolding cmp default_fn_compare_def by (rule memcmp_append)
  next
    show "0 < ksize" by (rule pos)
  qed
qed

lemma strategies_ok_djb2:
  assumes pos: "0 < ksize"
  shows "strategies_ok (fresh_table cap (hashmap_fn_hash_djb2 sg) ksize vsize)
           (terminated_keys ksize)"
  unfolding strategies_ok_def
proof
  show "keys_coherent (fresh_table cap (hashmap_fn_hash_djb2 sg) ksize vsize)
      (terminated_keys ksize)" using pos by (rule keys_coherent_djb2)
  show "default_ownership (fresh_table cap (hashmap_fn_hash_djb2 sg) ksize vsize)"
    by (simp add: default_ownership_def fresh_table_def)
qed

lemma hm_inv_fresh:
  assumes "HASHMAP_MINIMAL_CAPACITY \<le> cap" "0 < next_addr m"
      and "\<forall>a \<in> dom (cells m). 0 < a \<and> a < next_addr m"
  shows "hm_inv (fresh_table cap h ksize vsize) m"
    and "stored_in (fresh_table cap h ksize vsize) m D"
  using assms
  by (simp_all add: hm_inv_def buckets_ok_def separated_def keys_unique_def stored_in_def
        nodes_def fresh_table_def)

section \<open>The sample states\<close>

lemma sample_table_ok:
  shows "strategies_ok sample_table (terminated_keys 2)"
    and "hm_inv sample_table sample_mem"
    and "stored_in sample_table sample_mem (terminated_keys 2)"
proof -
  show "strategies_ok sample_table (terminated_keys 2)"
    unfolding sample_table_def by (rule strategies_ok_djb2) simp
  have c: "HASHMAP_MINIMAL_CAPACITY \<le> (2 :: size_t)"
    by (simp add: HASHMAP_MINIMAL_CAPACITY_def)
  have n: "0 < next_addr sample_mem" by (simp add: sample_mem_def)
  have w: "\<forall>a \<in> dom (cells sample_mem). 0 < a \<and> a < next_addr sample_mem"
    by (auto simp: sample_mem_def split: if_splits)
  show "hm_inv sample_table sample_mem"
    unfolding sample_table_def using c n w by (rule hm_inv_fresh)
  show "stored_in sample_table sample_mem (terminated_keys 2)"
    unfolding sample_table_def using c n w by (rule hm_inv_fresh)
qed

lemma sample_keys:
  "load sample_mem 1 \<in> terminated_keys 2"
  "load sample_mem 2 \<in> terminated_keys 2"
  "load sample_mem 3 \<in> terminated_keys 2"
  "1 \<in> dom (cells sample_mem)" "2 \<in> dom (cells sample_mem)" "3 \<in> dom (cells sample_mem)"
  "4 \<in> dom (cells sample_mem)" "5 \<in> dom (cells sample_mem)" "6 \<in> dom (cells sample_mem)"
  by (simp_all add: sample_mem_def load_def terminated_keys_def)

lemma sample_add1_value:
  "fst sample_add1 = 9"
  "table (fst (snd sample_add1)) = [[\<lparr>node_key = 8, node_value = 9\<rparr>], []]"
  "capacity (fst (snd sample_add1)) = 2"
  "count (fst (snd sample_add1)) = 1"
  "next_addr (snd (snd sample_add1)) = 10"
  "alloc_ok (snd (snd sample_add1)) = []"
  "load (snd (snd sample_add1)) 1 = [97, 0]"
  "load (snd (snd sample_add1)) 7 = [97, 0, 33]"
  "load (snd (snd sample_add1)) 8 = [97, 0]"
  "load (snd (snd sample_add1)) 9 = [10]"
  unfolding sample_add1_def by code_simp+

lemma sample_add1_ok:
  shows "strategies_ok (fst (snd sample_add1)) (terminated_keys 2)"
    and "hm_inv (fst (snd sample_add1)) (snd (snd sample_add1))"
    and "stored_in (fst (snd sample_add1)) (snd (snd sample_add1)) (terminated_keys 2)"
    and "nodes (fst (snd sample_add1)) = [\<lparr>node_key = 8, node_value = 9\<rparr>]"
    and "same_config sample_table (fst (snd sample_add1))"
proof -
  have absent: "hashmap_get sample_table sample_mem 1 = 0"
    using sample_table_ok(2)
    by (rule hashmap_get_absent) (simp add: nodes_def sample_table_def fresh_table_def)
  have e: "hashmap_add sample_table sample_mem 1 4 =
      (fst sample_add1, fst (snd sample_add1), snd (snd sample_add1))"
    unfolding sample_add1_def by simp
  note r = hashmap_add_absent [OF sample_table_ok sample_keys(1,4,7) absent e]
  from r show "hm_inv (fst (snd sample_add1)) (snd (snd sample_add1))"
    and "stored_in (fst (snd sample_add1)) (snd (snd sample_add1)) (terminated_keys 2)"
    and sc: "same_config sample_table (fst (snd sample_add1))"
    by blast+
  show "strategies_ok (fst (snd sample_add1)) (terminated_keys 2)"
    using same_config_fields(10) [OF sc] sample_table_ok(1) by simp
  show "nodes (fst (snd sample_add1)) = [\<lparr>node_key = 8, node_value = 9\<rparr>]"
    unfolding nodes_def sample_add1_value by simp
qed

section \<open>The states of a table in use\<close>

lemma hashmap_create_inv:
  assumes c: "hashmap_create initial_capacity hash_fn ksize vsize sg m = Inr (Some hm, m')"
      and nz: "0 < next_addr m"
      and wf: "\<forall>a \<in> dom (cells m). 0 < a \<and> a < next_addr m"
  shows "hm_inv hm m'" and "stored_in hm m' D" and "default_ownership hm"
proof -
  let ?c1 = "if initial_capacity = 0 then HASHMAP_DEFAULT_CAPACITY else initial_capacity"
  let ?cap = "if ?c1 < HASHMAP_MINIMAL_CAPACITY then HASHMAP_MINIMAL_CAPACITY else ?c1"
  let ?h = "case hash_fn of None \<Rightarrow> hashmap_fn_hash_djb2 sg | Some h \<Rightarrow> h"
  have pos: "ksize > 0 \<and> vsize > 0"
    using c by (cases "ksize > 0 \<and> vsize > 0") (simp_all add: hashmap_create_def)
  obtain ok1 m1 where a1: "alloc_attempt m = (ok1, m1)" by (cases "alloc_attempt m")
  obtain ok2 m2 where a2: "alloc_attempt m1 = (ok2, m2)" by (cases "alloc_attempt m1")
  from c pos a1 a2 have e: "m' = m2 \<and> hm = fresh_table ?cap ?h ksize vsize"
    by (cases ok1; cases ok2) (simp_all add: hashmap_create_def Let_def fresh_table_def)
  have mem: "cells m' = cells m" "next_addr m' = next_addr m"
    using e alloc_attempt_cells [OF a1] alloc_attempt_cells [OF a2] by simp_all
  have cap: "HASHMAP_MINIMAL_CAPACITY \<le> ?cap" by (simp add: not_less)
  have nz': "0 < next_addr m'" using nz mem by simp
  have wf': "\<forall>a \<in> dom (cells m'). 0 < a \<and> a < next_addr m'" using wf mem by simp
  have "hm_inv (fresh_table ?cap ?h ksize vsize) m'" using cap nz' wf' by (rule hm_inv_fresh)
  then show "hm_inv hm m'" using e by simp
  have "stored_in (fresh_table ?cap ?h ksize vsize) m' D" using cap nz' wf' by (rule hm_inv_fresh)
  then show "stored_in hm m' D" using e by simp
  show "default_ownership hm" using e by (simp add: default_ownership_def fresh_table_def)
qed

text \<open>
  In every state of a table in use the strategies are the coherent ones the table was
  created with, the copy and destroy strategies are the default ones, and the table is
  well formed.
\<close>

lemma reachable_inv:
  assumes "reachable D hm m"
  shows "strategies_ok hm D \<and> hm_inv hm m \<and> stored_in hm m D"
  using assms
proof (induction rule: reachable.induct)
  case (reachable_create initial_capacity hash_fn ksize vsize sg m hm m')
  note r = hashmap_create_inv [OF reachable_create(1,2,3)]
  have "strategies_ok hm D"
    unfolding strategies_ok_def using reachable_create(4) r(3) by blast
  with r(1) r(2) show ?case by blast
next
  case (reachable_add hm m key val p hm' m')
  then have ok: "strategies_ok hm D" and inv: "hm_inv hm m" and sd: "stored_in hm m D"
    by blast+
  show ?case
  proof (cases "hashmap_get hm m key = 0")
    case True
    note r = hashmap_add_absent
      [OF ok inv sd reachable_add(2) reachable_add(3) reachable_add(4) True reachable_add(6)]
    from r have inv': "hm_inv hm' m'" and sd': "stored_in hm' m' D"
      and sc: "same_config hm hm'" by blast+
    have "strategies_ok hm' D" using same_config_fields(10) [OF sc] ok by simp
    with inv' sd' show ?thesis by blast
  next
    case False
    then have "hashmap_add hm m key val = (hashmap_get hm m key, hm, m)"
      by (rule hashmap_add_present)
    with reachable_add(6) have "hm' = hm" "m' = m" by simp_all
    with ok inv sd show ?thesis by simp
  qed
next
  case (reachable_remove hm m key b hm' m')
  then have ok: "strategies_ok hm D" and inv: "hm_inv hm m" and sd: "stored_in hm m D"
    by blast+
  note r = hashmap_remove_cases [OF ok inv sd reachable_remove(2) reachable_remove(3)]
  from r have inv': "hm_inv hm' m'" and sd': "stored_in hm' m' D"
    and sc: "same_config hm hm'" by blast+
  have "strategies_ok hm' D" using same_config_fields(10) [OF sc] ok by simp
  with inv' sd' show ?case by blast
next
  case (reachable_write hm m a bs)
  then have ok: "strategies_ok hm D" and inv: "hm_inv hm m" and sd: "stored_in hm m D"
    by blast+
  let ?m' = "m\<lparr>cells := (cells m)(a \<mapsto> bs)\<rparr>"
  have same: "\<forall>x \<in> owned hm. cells ?m' x = cells m x"
    using reachable_write(3) by auto
  have nz: "0 < next_addr ?m'" using mem_wf(1) [OF inv] by simp
  have wf: "\<forall>x \<in> dom (cells ?m'). 0 < x \<and> x < next_addr ?m'"
  proof
    fix x assume "x \<in> dom (cells ?m')"
    then have "x = a \<or> x \<in> dom (cells m)" by (simp add: dom_def split: if_splits)
    with reachable_write(2) have "x \<in> dom (cells m)" by blast
    then show "0 < x \<and> x < next_addr ?m'" using mem_wf(3) [OF inv] by simp
  qed
  have "hm_inv hm ?m'" using inv same nz wf by (rule hm_inv_frame)
  moreover have "stored_in hm ?m' D" using sd same by (rule stored_in_frame)
  ultimately show ?case using ok by blast
qed

section \<open>Insert-if-absent\<close>




section \<open>Round trip\<close>


lemma owned_live:
  assumes "hm_inv hm m" "a \<in> owned hm"
  shows "a \<in> dom (cells m)"
  using assms unfolding hm_inv_def separated_def owned_def by blast





section \<open>Removal\<close>





section \<open>Resize\<close>




section \<open>Failure of entry creation\<close>

text \<open>
  C6, as the code has it. Take a table with its bucket array of \<open>capacity\<close> chains
  and a key that the strategies read inside the buffers. When \<^verbatim>\<open>hashmap_add\<close>
  returns \<^verbatim>\<open>NULL\<close> (the key was absent, and the node or one
  of the copies could not be created), \<open>count\<close> has its value of before the call
  and the entries are the same nodes. If the call took a grow step before creating the
  entry (the incremented count crossed the threshold and the bucket array was
  allocated), the capacity is the clamped target of that step; otherwise the table is
  exactly the one of before the call. In a well-formed table with the default copy and
  destroy strategies and coherent hash and equality strategies, no buffer has changed
  and every key is looked up as before.
\<close>

theorem failed_add_keeps_entries:
  assumes ao: "array_ok hm" and ri: "reads_inside hm m key"
      and add: "hashmap_add hm m key val = (0, hm', m')"
  shows "hashmap_get hm m key = 0 \<and>
         hashmap_count hm' = hashmap_count hm \<and>
         mset (nodes hm') = mset (nodes hm) \<and>
         (if load_balance (count hm + 1) (capacity hm) > load_balance_threshold_max hm \<and>
             fst (alloc_attempt m)
          then hashmap_capacity hm' = clamp_capacity (get_auto_growth_new_capacity hm)
          else hm' = hm) \<and>
         (strategies_ok hm D \<and> hm_inv hm m \<and> stored_in hm m D \<and> load m key \<in> D \<and>
          key \<in> dom (cells m) \<and> val \<in> dom (cells m) \<longrightarrow>
            cells m' = cells m \<and>
            (\<forall>k. load m k \<in> D \<longrightarrow> hashmap_get hm' m' k = hashmap_get hm m k))"
proof -
  let ?hm0 = "hm\<lparr>count := count hm + 1\<rparr>"
  have absent: "hashmap_get hm m key = 0" using add by (rule hashmap_add_null)
  from hashmap_add_null(2) [OF add] obtain hm1 m1 where
    ag: "auto_grow ?hm0 m = (hm1, m1)" and e: "hm' = hm1\<lparr>count := count hm1 - 1\<rparr>"
    by blast
  from ao have len: "length (table hm) = unat (capacity hm)" unfolding array_ok_def by blast
  have len0: "length (table ?hm0) = unat (capacity ?hm0)" using len by simp
  note g = auto_grow_structure [OF len0 ag]
  from g have c1: "count hm1 = count hm + 1" by simp
  have cnt: "hashmap_count hm' = hashmap_count hm"
    unfolding hashmap_count_def e using c1 by simp
  from g have "mset (nodes hm1) = mset (nodes hm)" by simp
  then have ms: "mset (nodes hm') = mset (nodes hm)" unfolding e by simp
  have cap: "if load_balance (count hm + 1) (capacity hm) > load_balance_threshold_max hm \<and>
             fst (alloc_attempt m)
          then hashmap_capacity hm' = clamp_capacity (get_auto_growth_new_capacity hm)
          else hm' = hm"
  proof (cases "load_balance (count hm + 1) (capacity hm) > load_balance_threshold_max hm \<and>
             fst (alloc_attempt m)")
    case True
    with g have "capacity hm1 = clamp_capacity (get_auto_growth_new_capacity ?hm0)" by simp
    then have "hashmap_capacity hm' = clamp_capacity (get_auto_growth_new_capacity hm)"
      unfolding e hashmap_capacity_def by (simp add: get_auto_growth_new_capacity_def)
    then show ?thesis unfolding if_P [OF True] .
  next
    case False
    with g have "hm1 = ?hm0" by simp
    then have "hm' = hm" unfolding e by simp
    then show ?thesis unfolding if_not_P [OF False] .
  qed
  have sem: "strategies_ok hm D \<and> hm_inv hm m \<and> stored_in hm m D \<and> load m key \<in> D \<and>
          key \<in> dom (cells m) \<and> val \<in> dom (cells m) \<longrightarrow>
            cells m' = cells m \<and>
            (\<forall>k. load m k \<in> D \<longrightarrow> hashmap_get hm' m' k = hashmap_get hm m k)"
  proof
    assume a: "strategies_ok hm D \<and> hm_inv hm m \<and> stored_in hm m D \<and> load m key \<in> D \<and>
          key \<in> dom (cells m) \<and> val \<in> dom (cells m)"
    then have ok: "strategies_ok hm D" and inv: "hm_inv hm m" and sd: "stored_in hm m D"
      and kd: "load m key \<in> D" and kl: "key \<in> dom (cells m)"
      and vl: "val \<in> dom (cells m)" by blast+
    note r = hashmap_add_absent [OF ok inv sd kd kl vl absent add]
    from r have inv': "hm_inv hm' m'" and sc: "same_config hm hm'"
      and cl: "cells m' = cells m" and ms': "mset (nodes hm') = mset (nodes hm)"
      by blast+
    have kc: "keys_coherent hm D" using ok by (rule strategies_ok_coherent)
    have kc': "keys_coherent hm' D" using same_config_fields(12) [OF sc] kc by simp
    have ke: "key_eq hm' = key_eq hm" using sc by (rule same_config_fields)
    have st: "set (nodes hm') = set (nodes hm)" using ms' by (rule mset_eq_setD)
    have l: "\<And>p. load m' p = load m p" using cl by (simp add: load_def)
    have "\<forall>k. load m k \<in> D \<longrightarrow> hashmap_get hm' m' k = hashmap_get hm m k"
    proof (intro allI impI)
      fix k assume kd': "load m k \<in> D"
      show "hashmap_get hm' m' k = hashmap_get hm m k"
        using kc inv inv' sd kd' kc' ke st by (rule hashmap_get_transfer) (simp_all add: l)
    qed
    with cl show "cells m' = cells m \<and>
            (\<forall>k. load m k \<in> D \<longrightarrow> hashmap_get hm' m' k = hashmap_get hm m k)" by blast
  qed
  from absent cnt ms cap sem show ?thesis by blast
qed

lemma sample_fail_ok:
  shows "hm_inv (fst (snd sample_add1)) sample_mem_fail"
    and "stored_in (fst (snd sample_add1)) sample_mem_fail (terminated_keys 2)"
    and "load sample_mem_fail 2 \<in> terminated_keys 2"
    and "2 \<in> dom (cells sample_mem_fail)" and "5 \<in> dom (cells sample_mem_fail)"
    and "hashmap_get (fst (snd sample_add1)) sample_mem_fail 2 = 0"
proof -
  have c: "cells sample_mem_fail = cells (snd (snd sample_add1))"
    and n: "next_addr (snd (snd sample_add1)) \<le> next_addr sample_mem_fail"
    unfolding sample_mem_fail_def by simp_all
  show "hm_inv (fst (snd sample_add1)) sample_mem_fail"
    using sample_add1_ok(2) c n by (rule hm_inv_cells_cong)
  show "stored_in (fst (snd sample_add1)) sample_mem_fail (terminated_keys 2)"
    using sample_add1_ok(3) refl c by (rule stored_in_same_nodes)
  have l2: "load sample_mem_fail 2 = [98, 0]"
    unfolding sample_mem_fail_def sample_add1_def by code_simp
  then show "load sample_mem_fail 2 \<in> terminated_keys 2"
    by (simp add: terminated_keys_def)
  show "2 \<in> dom (cells sample_mem_fail)"
    using l2 unfolding load_def by (auto split: option.splits)
  have "load sample_mem_fail 5 = [20]"
    unfolding sample_mem_fail_def sample_add1_def by code_simp
  then show "5 \<in> dom (cells sample_mem_fail)"
    unfolding load_def by (auto split: option.splits)
  show "hashmap_get (fst (snd sample_add1)) sample_mem_fail 2 = 0"
    unfolding sample_mem_fail_def sample_add1_def by code_simp
qed

lemma sample_add_fail_value:
  "fst sample_add_fail = 0"
  "capacity (fst (snd sample_add_fail)) = 3"
  "count (fst (snd sample_add_fail)) = 1"
  "table (fst (snd sample_add_fail)) = [[], [\<lparr>node_key = 8, node_value = 9\<rparr>], []]"
  unfolding sample_add_fail_def sample_mem_fail_def sample_add1_def by code_simp+

theorem failed_add_keeps_entries_witness:
  "fst sample_add_fail = 0 \<and>
   hashmap_count (fst (snd sample_add_fail)) = hashmap_count (fst (snd sample_add1)) \<and>
   mset (nodes (fst (snd sample_add_fail))) = mset (nodes (fst (snd sample_add1))) \<and>
   cells (snd (snd sample_add_fail)) = cells sample_mem_fail \<and>
   hashmap_capacity (fst (snd sample_add_fail)) = 3"
proof -
  have len: "array_ok (fst (snd sample_add1))" using sample_add1_ok(2) by (rule array_ok_inv)
  have ri: "reads_inside (fst (snd sample_add1)) sample_mem_fail 2"
    using strategies_ok_coherent [OF sample_add1_ok(1)] sample_fail_ok(2,3)
    by (rule reads_inside_coherent)
  have add: "hashmap_add (fst (snd sample_add1)) sample_mem_fail 2 5 =
      (0, fst (snd sample_add_fail), snd (snd sample_add_fail))"
    using sample_add_fail_value(1) unfolding sample_add_fail_def by (metis prod.collapse)
  from failed_add_keeps_entries [OF len ri add, of "terminated_keys 2"]
    sample_add1_ok(1) sample_fail_ok
  have "hashmap_count (fst (snd sample_add_fail)) = hashmap_count (fst (snd sample_add1))"
    and "mset (nodes (fst (snd sample_add_fail))) = mset (nodes (fst (snd sample_add1)))"
    and "cells (snd (snd sample_add_fail)) = cells sample_mem_fail"
    by blast+
  then show ?thesis
    using sample_add_fail_value by (simp add: hashmap_capacity_def)
qed

text \<open>
  C6 as stated fails: with one entry in a table of capacity 2, an add whose resize
  succeeds and whose node allocation fails returns \<^verbatim>\<open>NULL\<close> and leaves the table
  with capacity 3 and its entry in another bucket.
\<close>

theorem failed_add_grows_counterexample:
  "fst sample_add_fail = 0 \<and>
   hashmap_capacity (fst (snd sample_add1)) = 2 \<and>
   hashmap_capacity (fst (snd sample_add_fail)) = 3 \<and>
   table (fst (snd sample_add1)) = [[\<lparr>node_key = 8, node_value = 9\<rparr>], []] \<and>
   table (fst (snd sample_add_fail)) = [[], [\<lparr>node_key = 8, node_value = 9\<rparr>], []] \<and>
   fst (snd sample_add_fail) \<noteq> fst (snd sample_add1)"
proof -
  have "capacity (fst (snd sample_add_fail)) \<noteq> capacity (fst (snd sample_add1))"
    unfolding sample_add_fail_value sample_add1_value by simp
  then have "fst (snd sample_add_fail) \<noteq> fst (snd sample_add1)" by auto
  then show ?thesis
    using sample_add_fail_value sample_add1_value by (simp add: hashmap_capacity_def)
qed

section \<open>Failure of a resize\<close>

text \<open>
  C7, for a table with its bucket array of \<open>capacity\<close> chains and a key that the
  strategies read inside the buffers: when the bucket array of a resize cannot be
  allocated, \<^verbatim>\<open>resize\<close> returns with the table as it was (same bucket array,
  capacity and entries). An add that was due to
  grow then goes on as an add with no grow step does: when the node is created it is
  linked in the chain of its key's hash under the old capacity and its value pointer
  is returned, and the capacity is unchanged. A remove that was due to shrink has
  unlinked and destroyed the entry, and returns true with the count decremented and
  the capacity unchanged. In a well-formed table with the default copy and destroy
  strategies and coherent hash and equality strategies, when only the allocation of
  the bucket array fails the add returns a pointer that a following get of the key
  finds.
\<close>

theorem resize_failure_absorbed:
  assumes ao: "array_ok hm" and ri: "reads_inside hm m key"
  shows
  "(\<not> fst (alloc_attempt m) \<longrightarrow> resize hm m c = (hm, snd (alloc_attempt m))) \<and>
   (hashmap_get hm m key = 0 \<and>
    load_balance (count hm + 1) (capacity hm) > load_balance_threshold_max hm \<and>
    \<not> fst (alloc_attempt m) \<longrightarrow>
      hashmap_add hm m key val =
        (case node_create hm (snd (alloc_attempt m)) key val of
           (None, m') \<Rightarrow> (0, hm, m')
         | (Some node, m') \<Rightarrow>
             (node_value node,
              hm\<lparr>count := count hm + 1,
                  table := (table hm)
                    [bucket_index hm m (capacity hm) key :=
                       node # table hm ! bucket_index hm m (capacity hm) key]\<rparr>,
              m'))) \<and>
   (remove_loop hm m key (table hm ! bucket_index hm m (capacity hm) key) =
      Some (n, chain') \<and>
    load_balance (count hm - 1) (capacity hm) < load_balance_threshold_min hm \<and>
    \<not> fst (alloc_attempt (node_destroy hm m n)) \<longrightarrow>
      hashmap_remove hm m key =
        (True,
         hm\<lparr>table := (table hm)[bucket_index hm m (capacity hm) key := chain'],
             count := count hm - 1\<rparr>,
         snd (alloc_attempt (node_destroy hm m n)))) \<and>
   (strategies_ok hm D \<and> hm_inv hm m \<and> stored_in hm m D \<and> load m key \<in> D \<and>
    key \<in> dom (cells m) \<and> val \<in> dom (cells m) \<and>
    unat (value_size hm) \<le> length (load m val) \<and>
    hashmap_get hm m key = 0 \<and>
    load_balance (count hm + 1) (capacity hm) > load_balance_threshold_max hm \<and>
    alloc_ok m = False # True # True # True # rest \<longrightarrow>
      (\<exists>p hm' m'. hashmap_add hm m key val = (p, hm', m') \<and> p \<noteq> 0 \<and>
         hashmap_capacity hm' = hashmap_capacity hm \<and>
         hashmap_count hm' = hashmap_count hm + 1 \<and>
         hashmap_get hm' m' key = p))"
proof (intro conjI impI)
  assume "\<not> fst (alloc_attempt m)"
  then have "alloc_attempt m = (False, snd (alloc_attempt m))"
    by (cases "alloc_attempt m") simp
  then show "resize hm m c = (hm, snd (alloc_attempt m))" by (rule resize_failure)
next
  assume a: "hashmap_get hm m key = 0 \<and>
    load_balance (count hm + 1) (capacity hm) > load_balance_threshold_max hm \<and>
    \<not> fst (alloc_attempt m)"
  let ?hm0 = "hm\<lparr>count := count hm + 1\<rparr>"
  let ?m1 = "snd (alloc_attempt m)"
  let ?i = "bucket_index hm m (capacity hm) key"
  from a have absent: "hashmap_get hm m key = 0" by blast
  from a have al: "alloc_attempt m = (False, ?m1)" by (cases "alloc_attempt m") simp
  have ag: "auto_grow ?hm0 m = (?hm0, ?m1)"
    using a resize_failure [OF al] by (simp add: auto_grow_def)
  have c1: "cells ?m1 = cells m" using alloc_attempt_cells [OF al] by blast
  have bi: "bucket_index ?hm0 ?m1 (capacity ?hm0) key = ?i"
    by (simp add: bucket_index_def load_def c1)
  obtain r m2 where nc: "node_create hm ?m1 key val = (r, m2)"
    by (cases "node_create hm ?m1 key val")
  then have nc0: "node_create ?hm0 ?m1 key val = (r, m2)" by simp
  have bk: "?hm0\<lparr>count := count ?hm0 - 1\<rparr> = hm" by simp
  show "hashmap_add hm m key val =
        (case node_create hm ?m1 key val of
           (None, m') \<Rightarrow> (0, hm, m')
         | (Some node, m') \<Rightarrow>
             (node_value node,
              hm\<lparr>count := count hm + 1,
                  table := (table hm)[?i := node # table hm ! ?i]\<rparr>,
              m'))"
    unfolding hashmap_add_steps [OF absent ag nc0] nc bi bk
    by (cases r) simp_all
next
  assume a: "remove_loop hm m key (table hm ! bucket_index hm m (capacity hm) key) =
      Some (n, chain') \<and>
    load_balance (count hm - 1) (capacity hm) < load_balance_threshold_min hm \<and>
    \<not> fst (alloc_attempt (node_destroy hm m n))"
  let ?i = "bucket_index hm m (capacity hm) key"
  let ?hm2 = "hm\<lparr>table := (table hm)[?i := chain'], count := count hm - 1\<rparr>"
  let ?m1 = "node_destroy hm m n"
  from a have rl: "remove_loop hm m key (table hm ! ?i) = Some (n, chain')" by blast
  from a have al: "alloc_attempt ?m1 = (False, snd (alloc_attempt ?m1))"
    by (cases "alloc_attempt ?m1") simp
  have sh: "auto_shrink ?hm2 ?m1 = (?hm2, snd (alloc_attempt ?m1))"
    using a resize_failure [OF al] by (simp add: auto_shrink_def)
  show "hashmap_remove hm m key = (True, ?hm2, snd (alloc_attempt ?m1))"
    using rl sh by (simp add: hashmap_remove_def Let_def)
next
  assume a: "strategies_ok hm D \<and> hm_inv hm m \<and> stored_in hm m D \<and> load m key \<in> D \<and>
    key \<in> dom (cells m) \<and> val \<in> dom (cells m) \<and>
    unat (value_size hm) \<le> length (load m val) \<and>
    hashmap_get hm m key = 0 \<and>
    load_balance (count hm + 1) (capacity hm) > load_balance_threshold_max hm \<and>
    alloc_ok m = False # True # True # True # rest"
  then have ok: "strategies_ok hm D" and inv: "hm_inv hm m" and sd: "stored_in hm m D"
    and kd: "load m key \<in> D" and kl: "key \<in> dom (cells m)"
    and vl: "val \<in> dom (cells m)" and absent: "hashmap_get hm m key = 0"
    and trig: "load_balance (count hm + 1) (capacity hm) > load_balance_threshold_max hm"
    and script: "alloc_ok m = False # True # True # True # rest"
    by blast+
  let ?hm0 = "hm\<lparr>count := count hm + 1\<rparr>"
  let ?m1 = "m\<lparr>alloc_ok := True # True # True # rest\<rparr>"
  let ?i = "bucket_index hm m (capacity hm) key"
  let ?nd = "\<lparr>node_key = next_addr m, node_value = Suc (next_addr m)\<rparr>"
  have al: "alloc_attempt m = (False, ?m1)" using script by (simp add: alloc_attempt_def)
  have ag: "auto_grow ?hm0 m = (?hm0, ?m1)"
    using trig al by (simp add: auto_grow_def resize_failure)
  have own: "default_ownership ?hm0" using strategies_ok_ownership [OF ok] by simp
  have nz: "0 < next_addr ?m1" using mem_wf(1) [OF inv] by simp
  obtain r m2 where nc: "node_create ?hm0 ?m1 key val = (r, m2)"
    by (cases "node_create ?hm0 ?m1 key val")
  have "fst (node_create ?hm0 ?m1 key val) = Some \<lparr>node_key = next_addr ?m1,
      node_value = Suc (next_addr ?m1)\<rparr>"
    using own nz by (rule node_create_succeeds) simp
  with nc have r: "r = Some ?nd" by simp
  have bi: "bucket_index ?hm0 ?m1 (capacity ?hm0) key = ?i"
    by (simp add: bucket_index_def load_def)
  let ?hm' = "hm\<lparr>count := count hm + 1,
      table := (table hm)[?i := ?nd # table hm ! ?i]\<rparr>"
  have add: "hashmap_add hm m key val = (Suc (next_addr m), ?hm', m2)"
    using hashmap_add_steps [OF absent ag nc] unfolding r bi by simp
  have g: "hashmap_get ?hm' m2 key = Suc (next_addr m)"
    using ok inv sd kd kl vl absent add by (rule hashmap_get_after_add) simp
  show "\<exists>p hm' m'. hashmap_add hm m key val = (p, hm', m') \<and> p \<noteq> 0 \<and>
         hashmap_capacity hm' = hashmap_capacity hm \<and>
         hashmap_count hm' = hashmap_count hm + 1 \<and>
         hashmap_get hm' m' key = p"
    using add g by (intro exI [of _ "Suc (next_addr m)"] exI [of _ ?hm'] exI [of _ m2])
      (simp add: hashmap_capacity_def hashmap_count_def)
qed

theorem resize_failure_absorbed_witness:
  "fst (hashmap_add (fst (snd sample_add1)) sample_mem_noresize 2 5) \<noteq> 0 \<and>
   hashmap_capacity (fst (snd (hashmap_add (fst (snd sample_add1)) sample_mem_noresize 2 5))) = 2 \<and>
   hashmap_count (fst (snd (hashmap_add (fst (snd sample_add1)) sample_mem_noresize 2 5))) = 2 \<and>
   hashmap_get (fst (snd (hashmap_add (fst (snd sample_add1)) sample_mem_noresize 2 5)))
     (snd (snd (hashmap_add (fst (snd sample_add1)) sample_mem_noresize 2 5))) 2 =
     fst (hashmap_add (fst (snd sample_add1)) sample_mem_noresize 2 5) \<and>
   load_balance 2 2 > HASHMAP_DEFAULT_LOAD_BALANCE_THRESHOLD_MAX \<and>
   fst (hashmap_remove (fst (snd sample_add1)) sample_mem_noresize 1) \<and>
   hashmap_capacity (fst (snd (hashmap_remove (fst (snd sample_add1)) sample_mem_noresize 1))) = 2 \<and>
   hashmap_count (fst (snd (hashmap_remove (fst (snd sample_add1)) sample_mem_noresize 1))) = 0 \<and>
   load_balance 0 2 < HASHMAP_DEFAULT_LOAD_BALANCE_THRESHOLD_MIN"
proof -
  let ?hm = "fst (snd sample_add1)" and ?m = "sample_mem_noresize"
  have c: "cells ?m = cells (snd (snd sample_add1))"
    and n: "next_addr (snd (snd sample_add1)) \<le> next_addr ?m"
    unfolding sample_mem_noresize_def by simp_all
  have inv: "hm_inv ?hm ?m" using sample_add1_ok(2) c n by (rule hm_inv_cells_cong)
  have sd: "stored_in ?hm ?m (terminated_keys 2)"
    using sample_add1_ok(3) refl c by (rule stored_in_same_nodes)
  have l2: "load ?m 2 = [98, 0]"
    unfolding sample_mem_noresize_def sample_add1_def by code_simp
  then have kd: "load ?m 2 \<in> terminated_keys 2" by (simp add: terminated_keys_def)
  have kl: "2 \<in> dom (cells ?m)"
    using l2 unfolding load_def by (auto split: option.splits)
  have "load ?m 5 = [20]"
    unfolding sample_mem_noresize_def sample_add1_def by code_simp
  then have vl: "5 \<in> dom (cells ?m)" unfolding load_def by (auto split: option.splits)
  have absent: "hashmap_get ?hm ?m 2 = 0"
    unfolding sample_mem_noresize_def sample_add1_def by code_simp
  have vs: "unat (value_size ?hm) \<le> length (load ?m 5)"
    unfolding same_config_fields(2) [OF sample_add1_ok(5)] \<open>load ?m 5 = [20]\<close>
    by (simp add: sample_table_def fresh_table_def)
  have lb: "load_balance 2 2 > HASHMAP_DEFAULT_LOAD_BALANCE_THRESHOLD_MAX" by code_simp
  have th: "load_balance_threshold_max ?hm = HASHMAP_DEFAULT_LOAD_BALANCE_THRESHOLD_MAX"
    using same_config_fields(6) [OF sample_add1_ok(5)]
    by (simp add: sample_table_def fresh_table_def)
  have trig: "load_balance (count ?hm + 1) (capacity ?hm) > load_balance_threshold_max ?hm"
    unfolding th sample_add1_value using lb by simp
  have al: "alloc_ok ?m = False # True # True # True # []"
    unfolding sample_mem_noresize_def by simp
  have ao: "array_ok ?hm" using sample_add1_ok(2) by (rule array_ok_inv)
  have kc: "keys_coherent ?hm (terminated_keys 2)"
    using sample_add1_ok(1) by (rule strategies_ok_coherent)
  have ri2: "reads_inside ?hm ?m 2" using kc sd kd by (rule reads_inside_coherent)
  from resize_failure_absorbed
      [where val = 5 and D = "terminated_keys 2" and rest = "[]", OF ao ri2]
    sample_add1_ok(1) inv sd kd kl vl vs absent trig al
  obtain p hm' m' where "hashmap_add ?hm ?m 2 5 = (p, hm', m')" "p \<noteq> 0"
    "hashmap_capacity hm' = hashmap_capacity ?hm"
    "hashmap_count hm' = hashmap_count ?hm + 1" "hashmap_get hm' m' 2 = p"
    by blast
  then have addp: "fst (hashmap_add ?hm ?m 2 5) \<noteq> 0 \<and>
      hashmap_capacity (fst (snd (hashmap_add ?hm ?m 2 5))) = 2 \<and>
      hashmap_count (fst (snd (hashmap_add ?hm ?m 2 5))) = 2 \<and>
      hashmap_get (fst (snd (hashmap_add ?hm ?m 2 5))) (snd (snd (hashmap_add ?hm ?m 2 5))) 2 =
        fst (hashmap_add ?hm ?m 2 5)"
    by (simp add: hashmap_capacity_def hashmap_count_def sample_add1_value)
  let ?n = "\<lparr>node_key = 8, node_value = 9\<rparr>"
  have rl: "remove_loop ?hm ?m 1 (table ?hm ! bucket_index ?hm ?m (capacity ?hm) 1) =
      Some (?n, [])"
    unfolding sample_mem_noresize_def sample_add1_def by code_simp
  have lb0: "load_balance 0 2 < HASHMAP_DEFAULT_LOAD_BALANCE_THRESHOLD_MIN" by code_simp
  have thmin: "load_balance_threshold_min ?hm = HASHMAP_DEFAULT_LOAD_BALANCE_THRESHOLD_MIN"
    using same_config_fields(5) [OF sample_add1_ok(5)]
    by (simp add: sample_table_def fresh_table_def)
  have trig0: "load_balance (count ?hm - 1) (capacity ?hm) < load_balance_threshold_min ?hm"
    unfolding thmin sample_add1_value using lb0 by simp
  have nal: "\<not> fst (alloc_attempt (node_destroy ?hm ?m ?n))"
    unfolding sample_mem_noresize_def sample_add1_def by code_simp
  have "load ?m 1 = [97, 0]"
    unfolding sample_mem_noresize_def sample_add1_def by code_simp
  then have kd1: "load ?m 1 \<in> terminated_keys 2" by (simp add: terminated_keys_def)
  have ri1: "reads_inside ?hm ?m 1" using kc sd kd1 by (rule reads_inside_coherent)
  from resize_failure_absorbed [where n = ?n and chain' = "[]", OF ao ri1]
    rl trig0 nal
  have "hashmap_remove ?hm ?m 1 =
      (True,
       ?hm\<lparr>table := (table ?hm)[bucket_index ?hm ?m (capacity ?hm) 1 := []],
           count := count ?hm - 1\<rparr>,
       snd (alloc_attempt (node_destroy ?hm ?m ?n)))"
    by blast
  then have rmp: "fst (hashmap_remove ?hm ?m 1) \<and>
      hashmap_capacity (fst (snd (hashmap_remove ?hm ?m 1))) = 2 \<and>
      hashmap_count (fst (snd (hashmap_remove ?hm ?m 1))) = 0"
    by (simp add: hashmap_capacity_def hashmap_count_def sample_add1_value)
  from addp rmp lb lb0 show ?thesis by blast
qed

section \<open>The resize policy\<close>

text \<open>
  C4 as stated fails after an add: one key added to a table of the default capacity 16
  leaves the load balance at 1/16, below the shrink threshold 1/4, and the capacity
  at 16: the shrink rule is not evaluated by \<^verbatim>\<open>hashmap_add\<close>.
\<close>

theorem add_never_shrinks_counterexample:
  "hashmap_create 16 None 2 1 False sample_mem =
     Inr (Some (fresh_table 16 (hashmap_fn_hash_djb2 False) 2 1), sample_mem) \<and>
   fst default_add1 \<noteq> 0 \<and>
   hashmap_count (fst (snd default_add1)) = 1 \<and>
   hashmap_capacity (fst (snd default_add1)) = 16 \<and>
   load_balance_threshold_min (fst (snd default_add1)) = 1 / 4 \<and>
   load_balance (hashmap_count (fst (snd default_add1)))
     (hashmap_capacity (fst (snd default_add1))) = 1 / 16"
proof -
  have c: "hashmap_create 16 None 2 1 False sample_mem =
     Inr (Some (fresh_table 16 (hashmap_fn_hash_djb2 False) 2 1), sample_mem)"
    by (simp add: hashmap_create_def Let_def alloc_attempt_def fresh_table_def sample_mem_def
        HASHMAP_MINIMAL_CAPACITY_def)
  have s: "fst default_add1 \<noteq> 0 \<and>
   hashmap_count (fst (snd default_add1)) = 1 \<and>
   hashmap_capacity (fst (snd default_add1)) = 16 \<and>
   load_balance_threshold_min (fst (snd default_add1)) = 1 / 4 \<and>
   load_balance (hashmap_count (fst (snd default_add1)))
     (hashmap_capacity (fst (snd default_add1))) = 1 / 16"
    unfolding default_add1_def hashmap_count_def hashmap_capacity_def by code_simp
  from c s show ?thesis by blast
qed

text \<open>
  C4, as the code has it, for a table with its bucket array of \<open>capacity\<close> chains
  and a key that the strategies read inside the buffers. The load balance is the
  \<^verbatim>\<open>float\<close> quotient of count and capacity. \<^verbatim>\<open>hashmap_add\<close> of an absent key evaluates the grow rule alone, once, on
  the incremented count: above \<open>load_balance_threshold_max\<close>, and when the new
  bucket array is allocated, the capacity becomes the clamped
  \<open>capacity + capacity div 2\<close> (in \<^verbatim>\<open>size_t\<close> arithmetic), and it stays otherwise.
  \<^verbatim>\<open>hashmap_remove\<close> of a present key evaluates the shrink rule alone, once, on the
  decremented count: below \<open>load_balance_threshold_min\<close>, and when the new bucket
  array is allocated, the capacity becomes the clamped \<open>capacity div 2\<close>, and it
  stays otherwise. An add of a present key and a remove of an absent key change
  nothing. The clamp gives a capacity of at least 2.
\<close>

theorem resize_policy:
  assumes ao: "array_ok hm" and ri: "reads_inside hm m key"
  shows
  "(hashmap_get hm m key = 0 \<longrightarrow>
      hashmap_capacity (fst (snd (hashmap_add hm m key val))) =
        (if load_balance (count hm + 1) (capacity hm) > load_balance_threshold_max hm \<and>
            fst (alloc_attempt m)
         then clamp_capacity (get_auto_growth_new_capacity hm)
         else hashmap_capacity hm)) \<and>
   (hashmap_get hm m key \<noteq> 0 \<longrightarrow> hashmap_add hm m key val = (hashmap_get hm m key, hm, m)) \<and>
   (remove_loop hm m key (table hm ! bucket_index hm m (capacity hm) key) =
      Some (n, chain') \<longrightarrow>
      fst (hashmap_remove hm m key) \<and>
      hashmap_capacity (fst (snd (hashmap_remove hm m key))) =
        (if load_balance (count hm - 1) (capacity hm) < load_balance_threshold_min hm \<and>
            fst (alloc_attempt (node_destroy hm m n))
         then clamp_capacity (get_auto_shrink_new_capacity hm)
         else hashmap_capacity hm)) \<and>
   (remove_loop hm m key (table hm ! bucket_index hm m (capacity hm) key) = None \<longrightarrow>
      hashmap_remove hm m key = (False, hm, m)) \<and>
   unat (get_auto_growth_new_capacity hm) =
     (unat (capacity hm) + unat (capacity hm) div 2) mod 2 ^ 64 \<and>
   unat (get_auto_shrink_new_capacity hm) = unat (capacity hm) div 2 \<and>
   unat (clamp_capacity c) = max 2 (unat c)"
proof (intro conjI impI)
  assume "hashmap_get hm m key = 0"
  then show "hashmap_capacity (fst (snd (hashmap_add hm m key val))) =
        (if load_balance (count hm + 1) (capacity hm) > load_balance_threshold_max hm \<and>
            fst (alloc_attempt m)
         then clamp_capacity (get_auto_growth_new_capacity hm)
         else hashmap_capacity hm)"
    unfolding hashmap_capacity_def by (rule hashmap_add_grow_capacity)
next
  assume "hashmap_get hm m key \<noteq> 0"
  then show "hashmap_add hm m key val = (hashmap_get hm m key, hm, m)"
    by (rule hashmap_add_present)
next
  assume rl: "remove_loop hm m key (table hm ! bucket_index hm m (capacity hm) key) =
      Some (n, chain')"
  then show "fst (hashmap_remove hm m key)" by (rule hashmap_remove_shrink_capacity)
  from rl show "hashmap_capacity (fst (snd (hashmap_remove hm m key))) =
        (if load_balance (count hm - 1) (capacity hm) < load_balance_threshold_min hm \<and>
            fst (alloc_attempt (node_destroy hm m n))
         then clamp_capacity (get_auto_shrink_new_capacity hm)
         else hashmap_capacity hm)"
    unfolding hashmap_capacity_def by (rule hashmap_remove_shrink_capacity)
next
  assume "remove_loop hm m key (table hm ! bucket_index hm m (capacity hm) key) = None"
  then show "hashmap_remove hm m key = (False, hm, m)"
    by (simp add: hashmap_remove_def Let_def)
next
  show "unat (get_auto_growth_new_capacity hm) =
     (unat (capacity hm) + unat (capacity hm) div 2) mod 2 ^ 64"
    by (rule unat_growth_mod)
next
  show "unat (get_auto_shrink_new_capacity hm) = unat (capacity hm) div 2"
    by (rule unat_shrink)
next
  show "unat (clamp_capacity c) = max 2 (unat c)" by (rule unat_clamp_capacity)
qed

theorem resize_policy_witness:
  "unat (hashmap_capacity
      (fst (snd (hashmap_add (fst (snd sample_add1)) (snd (snd sample_add1)) 2 5)))) = 3 \<and>
   load_balance 2 2 > HASHMAP_DEFAULT_LOAD_BALANCE_THRESHOLD_MAX \<and>
   unat (hashmap_capacity
      (fst (snd (hashmap_remove (fst (snd sample_add1)) (snd (snd sample_add1)) 1)))) = 2 \<and>
   load_balance 0 2 < HASHMAP_DEFAULT_LOAD_BALANCE_THRESHOLD_MIN"
proof -
  let ?hm = "fst (snd sample_add1)" and ?m = "snd (snd sample_add1)"
  let ?n = "\<lparr>node_key = 8, node_value = 9\<rparr>"
  have tmax: "load_balance_threshold_max ?hm = HASHMAP_DEFAULT_LOAD_BALANCE_THRESHOLD_MAX"
    and tmin: "load_balance_threshold_min ?hm = HASHMAP_DEFAULT_LOAD_BALANCE_THRESHOLD_MIN"
    using same_config_fields(5,6) [OF sample_add1_ok(5)]
    by (simp_all add: sample_table_def fresh_table_def)
  have lb1: "load_balance 2 2 > HASHMAP_DEFAULT_LOAD_BALANCE_THRESHOLD_MAX" by code_simp
  have lb2: "load_balance 0 2 < HASHMAP_DEFAULT_LOAD_BALANCE_THRESHOLD_MIN" by code_simp
  have g2: "hashmap_get ?hm ?m 2 = 0" unfolding sample_add1_def by code_simp
  have rl: "remove_loop ?hm ?m 1 (table ?hm ! bucket_index ?hm ?m (capacity ?hm) 1) =
      Some (?n, [])"
    unfolding sample_add1_def by code_simp
  have al: "fst (alloc_attempt ?m)"
    unfolding alloc_attempt_def sample_add1_value by simp
  have al': "fst (alloc_attempt (node_destroy ?hm ?m ?n))"
    unfolding sample_add1_def by code_simp
  have t1: "load_balance (count ?hm + 1) (capacity ?hm) > load_balance_threshold_max ?hm"
    unfolding tmax sample_add1_value using lb1 by simp
  have t2: "load_balance (count ?hm - 1) (capacity ?hm) < load_balance_threshold_min ?hm"
    unfolding tmin sample_add1_value using lb2 by simp
  have ao: "array_ok ?hm" using sample_add1_ok(2) by (rule array_ok_inv)
  have kc: "keys_coherent ?hm (terminated_keys 2)"
    using sample_add1_ok(1) by (rule strategies_ok_coherent)
  have "load ?m 1 = [97, 0]" "load ?m 2 = [98, 0]"
    unfolding sample_add1_def by code_simp+
  then have kd: "load ?m 1 \<in> terminated_keys 2" "load ?m 2 \<in> terminated_keys 2"
    by (simp_all add: terminated_keys_def)
  have ri1: "reads_inside ?hm ?m 1" using kc sample_add1_ok(3) kd(1)
    by (rule reads_inside_coherent)
  have ri2: "reads_inside ?hm ?m 2" using kc sample_add1_ok(3) kd(2)
    by (rule reads_inside_coherent)
  have gr: "unat (clamp_capacity (get_auto_growth_new_capacity ?hm)) = 3"
    and sh: "unat (clamp_capacity (get_auto_shrink_new_capacity ?hm)) = 2"
    using resize_policy [OF ao ri2] unfolding sample_add1_value by simp_all
  from resize_policy [where val = 5, OF ao ri2] g2 t1 al gr
  have a: "unat (hashmap_capacity (fst (snd (hashmap_add ?hm ?m 2 5)))) = 3" by simp
  from resize_policy [where n = ?n and chain' = "[]", OF ao ri1] rl t2 al' sh
  have b: "unat (hashmap_capacity (fst (snd (hashmap_remove ?hm ?m 1)))) = 2" by simp
  from a b lb1 lb2 show ?thesis by blast
qed

section \<open>The scenario of the specification\<close>

text \<open>
  C8 as stated fails. In the table created with capacity 2 the capacity after the
  third add is 4, not 3, and after the two removes it is still 4, not 2.
\<close>

theorem scenario_capacities_counterexample:
  "fst scenario ! 2 = 4 \<and> fst scenario ! 2 \<noteq> 3 \<and>
   fst scenario ! 4 = 4 \<and> fst scenario ! 4 \<noteq> 2"
  unfolding scenario_def by code_simp

text \<open>
  C8, as the code has it. \<^verbatim>\<open>hashmap_create(2, NULL, 2, 1)\<close> returns the sample
  table. Each add evaluates the grow rule on the incremented count before it inserts:
  the first add leaves the capacity at 2 (1/2), the second grows it to 3 (2/2 is above
  3/4), the third grows it to 4 (3/3 is above 3/4), and get then finds the three keys
  with their values. The first remove leaves 2 entries in 4 buckets, the second 1 entry
  in 4 buckets: 1/4 is not below the threshold 1/4, so the capacity stays 4. Both
  removes return true, one entry is left, get returns \<^verbatim>\<open>NULL\<close> for the removed keys
  and still finds the remaining key with its value.
\<close>

theorem scenario_capacities:
  "hashmap_create 2 None 2 1 False sample_mem = Inr (Some sample_table, sample_mem) \<and>
   scenario =
     ([2, 3, 4, 4, 4], [9, 11, 13], [9, 11, 13], [[10], [20], [30]],
      [True, True], 1, [0, 0, 13], [30]) \<and>
   load_balance 1 2 = 1 / 2 \<and> load_balance 2 2 = 1 \<and> load_balance 3 3 = 1 \<and>
   load_balance 2 4 = 1 / 2 \<and> load_balance 1 4 = 1 / 4 \<and>
   HASHMAP_DEFAULT_LOAD_BALANCE_THRESHOLD_MAX = 3 / 4 \<and>
   HASHMAP_DEFAULT_LOAD_BALANCE_THRESHOLD_MIN = 1 / 4"
proof -
  have c: "hashmap_create 2 None 2 1 False sample_mem = Inr (Some sample_table, sample_mem)"
    by (simp add: hashmap_create_def Let_def alloc_attempt_def sample_table_def
        fresh_table_def sample_mem_def HASHMAP_MINIMAL_CAPACITY_def)
  have s: "scenario =
     ([2, 3, 4, 4, 4], [9, 11, 13], [9, 11, 13], [[10], [20], [30]],
      [True, True], 1, [0, 0, 13], [30])"
    unfolding scenario_def by code_simp
  have l: "load_balance 1 2 = 1 / 2" "load_balance 2 2 = 1" "load_balance 3 3 = 1"
    "load_balance 2 4 = 1 / 2" "load_balance 1 4 = 1 / 4"
    by code_simp+
  have t: "HASHMAP_DEFAULT_LOAD_BALANCE_THRESHOLD_MAX = 3 / 4"
    "HASHMAP_DEFAULT_LOAD_BALANCE_THRESHOLD_MIN = 1 / 4"
    by (simp_all add: HASHMAP_DEFAULT_LOAD_BALANCE_THRESHOLD_MAX_def
        HASHMAP_DEFAULT_LOAD_BALANCE_THRESHOLD_MIN_def)
  from c s l t show ?thesis by blast
qed

section \<open>The djb2 hash\<close>

lemma djb2_loop_fold:
  "0 \<notin> set bs \<Longrightarrow>
   djb2_loop sg h (bs @ 0 # rest) = foldl (\<lambda>hash c. hash * 33 + char_to_size_t sg c) h bs"
proof (induction bs arbitrary: h)
  case Nil
  then show ?case by simp
next
  case (Cons b bs)
  have "push_bit 5 h + h = h * 33" by (simp add: push_bit_eq_mult)
  with Cons show ?case by (simp add: mult.commute)
qed

text \<open>
  C9, as the code has it: \<^verbatim>\<open>hashmap_fn_hash_djb2\<close> starts from 5381 and folds
  \<open>hash * 33 + byte\<close>, wrapping in \<^verbatim>\<open>size_t\<close>, over the bytes before the first zero
  byte of the key, whatever \<^verbatim>\<open>size\<close> is: the bytes after the terminator and the
  \<^verbatim>\<open>size\<close> argument have no influence.
\<close>

theorem djb2_hashes_up_to_terminator:
  "0 \<notin> set bs \<Longrightarrow> hashmap_fn_hash_djb2 sg (bs @ 0 # rest) sz = djb2_fold sg bs"
  by (simp add: hashmap_fn_hash_djb2_def djb2_fold_def djb2_loop_fold)

theorem djb2_hashes_up_to_terminator_witness:
  "0 \<notin> set [104, 105 :: byte] \<and>
   hashmap_fn_hash_djb2 True ([104, 105] @ 0 # [7, 7]) 5 = djb2_fold True [104, 105] \<and>
   djb2_fold True [104, 105] = 5863446"
  using djb2_hashes_up_to_terminator [of "[104, 105]" True "[7, 7]" 5]
  by (simp add: djb2_fold_def char_to_size_t_def)

text \<open>
  C9 as stated fails for a fixed-width key: the four byte key \<open>01 00 02 00\<close> with
  \<open>key_size = 4\<close> is hashed over its first byte only, not over its four bytes.
\<close>

theorem djb2_fixed_width_counterexample:
  "hashmap_fn_hash_djb2 False [1, 0, 2, 0] 4 = 177574 \<and>
   djb2_fold False (take 4 [1, 0, 2, 0]) = 6381476904 \<and>
   hashmap_fn_hash_djb2 False [1, 0, 2, 0] 4 \<noteq> djb2_fold False (take 4 [1, 0, 2, 0])"
  by (simp add: hashmap_fn_hash_djb2_def djb2_fold_def char_to_size_t_def)

section \<open>Creation\<close>

lemma hashmap_create_fresh:
  assumes "0 < ksize" "0 < vsize" "alloc_ok m = []" "cap0 \<noteq> 0"
  shows "hashmap_create cap0 (Some h) ksize vsize sg m =
           Inr (Some (fresh_table (clamp_capacity cap0) h ksize vsize), m)"
  using assms
  by (simp add: hashmap_create_def Let_def alloc_attempt_def fresh_table_def
        clamp_capacity_def)

text \<open>
  C10: a table created with \<open>initial_capacity = 0\<close> has the default capacity 16 (not
  the minimal capacity 2), sixteen empty chains and no entry.
\<close>

theorem create_zero_capacity:
  "hashmap_create 0 hash_fn ksize vsize sg m = Inr (Some hm, m') \<Longrightarrow>
   hashmap_capacity hm = HASHMAP_DEFAULT_CAPACITY \<and> hashmap_capacity hm = 16 \<and>
   length (table hm) = 16 \<and> hashmap_count hm = 0"
  by (auto simp: hashmap_create_def Let_def hashmap_capacity_def hashmap_count_def
        HASHMAP_DEFAULT_CAPACITY_def HASHMAP_MINIMAL_CAPACITY_def
      split: if_splits prod.splits bool.splits)

theorem create_zero_capacity_witness:
  "hashmap_create 0 None 4 4 True mem0 =
     Inr (Some (fresh_table 16 (hashmap_fn_hash_djb2 True) 4 4), mem0) \<and>
   hashmap_capacity (fresh_table 16 (hashmap_fn_hash_djb2 True) 4 4) = 16"
proof -
  have h: "hashmap_create 0 None 4 4 True mem0 =
     Inr (Some (fresh_table 16 (hashmap_fn_hash_djb2 True) 4 4), mem0)"
    by (simp add: hashmap_create_def Let_def alloc_attempt_def fresh_table_def mem0_def
          HASHMAP_DEFAULT_CAPACITY_def HASHMAP_MINIMAL_CAPACITY_def)
  from create_zero_capacity [OF h] h show ?thesis by blast
qed

end
